theory Spec2Isabelle
  imports Complex_Main
begin

text \<open>
  The OCR service of the receipt splitter: \<open>parseReceiptImage\<close> with its image
  pre-processing \<open>preprocessImage\<close>, which is the version that the specification
  describes; the line numbers below are those of its file. The file src/services/ocr.ts
  is an earlier variant of the same function: it has no pre-processing, its pattern wants
  a dot or a comma before every group of three digits, its filter lacks the keywords date
  and time, and it asks for names of more than two characters and sets no upper bound on
  the price.
\<close>

section \<open>JavaScript strings\<close>

text \<open>
  A JavaScript string is a sequence of UTF-16 code units; \<open>length\<close>, \<open>indexOf\<close>, \<open>trim\<close>
  and the regular expressions of the receipt parser (none has the \<open>u\<close> flag) all work on
  code units. A code unit is modelled by its number (0 to 65535). \<open>js\<close> turns an
  Isabelle literal into such a string.
\<close>

type_synonym jsstring = "int list"

definition js :: "string \<Rightarrow> jsstring" where
  "js s = map of_char s"

text \<open>
  \<open>\s\<close> in a regular expression, and the characters removed by \<open>String.prototype.trim\<close>:
  WhiteSpace and LineTerminator of ECMAScript (TAB, LF, VT, FF, CR, SP, NBSP, U+1680,
  U+2000 to U+200A, LS, PS, U+202F, U+205F, U+3000, BOM).
\<close>

definition isSpace :: "int \<Rightarrow> bool" where
  "isSpace c \<longleftrightarrow>
     (9 \<le> c \<and> c \<le> 13) \<or> c = 32 \<or> c = 160 \<or> c = 5760 \<or> (8192 \<le> c \<and> c \<le> 8202) \<or>
     c = 8232 \<or> c = 8233 \<or> c = 8239 \<or> c = 8287 \<or> c = 12288 \<or> c = 65279"

text \<open>\<open>.\<close> in a regular expression without the \<open>s\<close> flag: anything but LF, CR, LS, PS.\<close>

definition isLineTerminator :: "int \<Rightarrow> bool" where
  "isLineTerminator c \<longleftrightarrow> c = 10 \<or> c = 13 \<or> c = 8232 \<or> c = 8233"

definition isDigit :: "int \<Rightarrow> bool" where
  "isDigit c \<longleftrightarrow> 48 \<le> c \<and> c \<le> 57"

definition trim :: "jsstring \<Rightarrow> jsstring" where
  "trim s = rev (dropWhile isSpace (rev (dropWhile isSpace s)))"

text \<open>\<open>text.split('\n')\<close>: the first argument holds the current piece, reversed.\<close>

fun splitNL :: "jsstring \<Rightarrow> jsstring \<Rightarrow> jsstring list" where
  "splitNL cur [] = [rev cur]"
| "splitNL cur (c # cs) = (if c = 10 then rev cur # splitNL [] cs else splitNL (c # cur) cs)"

definition split_lines :: "jsstring \<Rightarrow> jsstring list" where
  "split_lines text = splitNL [] text"

text \<open>\<open>s.indexOf(c)\<close> for a one-character needle: the first index, or -1.\<close>

fun indexOf :: "int \<Rightarrow> jsstring \<Rightarrow> int" where
  "indexOf c [] = -1"
| "indexOf c (x # xs) = (if x = c then 0 else (let i = indexOf c xs in if i < 0 then -1 else i + 1))"

text \<open>\<open>s.replace(',', '.')\<close> with a string pattern: only the first occurrence is replaced.\<close>

fun replaceFirst :: "int \<Rightarrow> int \<Rightarrow> jsstring \<Rightarrow> jsstring" where
  "replaceFirst a b [] = []"
| "replaceFirst a b (x # xs) = (if x = a then b # xs else x # replaceFirst a b xs)"

section \<open>JavaScript numbers\<close>

text \<open>
  A Number is an IEEE 754 binary64 value. A finite one is modelled by the rational it
  denotes (the two zeros are identified: no comparison of the parser tells them apart).
\<close>

datatype number = NaN | PosInf | NegInf | Fin rat

fun isNaN :: "number \<Rightarrow> bool" where
  "isNaN NaN = True"
| "isNaN _ = False"

text \<open>\<open>a < b\<close> on Numbers; false as soon as one side is NaN.\<close>

fun num_less :: "number \<Rightarrow> number \<Rightarrow> bool" where
  "num_less NaN _ = False"
| "num_less _ NaN = False"
| "num_less _ NegInf = False"
| "num_less PosInf _ = False"
| "num_less NegInf _ = True"
| "num_less (Fin a) PosInf = True"
| "num_less (Fin a) (Fin b) = (a < b)"

fun pow2 :: "int \<Rightarrow> rat" where
  "pow2 e = (if 0 \<le> e then 2 ^ nat e else 1 / 2 ^ nat (- e))"

function log2floor :: "int \<Rightarrow> int" where
  "log2floor n = (if n < 2 then 0 else log2floor (n div 2) + 1)"
  by pat_completeness auto
termination
  by (relation "measure nat") auto

text \<open>The largest \<open>e\<close> with \<open>2 ^ e \<le> p / q\<close>, for positive \<open>p\<close> and \<open>q\<close>.\<close>

definition binade :: "int \<Rightarrow> int \<Rightarrow> int" where
  "binade p q = (let e = log2floor p - log2floor q
                 in if (if 0 \<le> e then q * 2 ^ nat e \<le> p else q \<le> p * 2 ^ nat (- e))
                    then e else e - 1)"

text \<open>The integer nearest to \<open>n / d\<close> (for \<open>0 < d\<close>), a tie going to the even one.\<close>

definition round_half_even :: "int \<Rightarrow> int \<Rightarrow> int" where
  "round_half_even n d = (let q = n div d; r = n mod d
                          in if 2 * r < d then q else if d < 2 * r then q + 1
                             else if even q then q else q + 1)"

text \<open>
  Rounding of the rational \<open>p / q\<close> (\<open>0 \<le> p\<close>, \<open>0 < q\<close>) to the nearest binary64 value,
  ties to even: 53 bits of significand from \<open>2 ^ -1022\<close> on, and steps of \<open>2 ^ -1074\<close>
  below (subnormals, and underflow to zero). The result \<open>(m, k)\<close> stands for
  \<open>m * 2 ^ k\<close>. The exponent is unbounded above here; \<open>fl\<close> adds the overflow to infinity.
\<close>

definition round_binary64 :: "int \<Rightarrow> int \<Rightarrow> int \<times> int" where
  "round_binary64 p q =
     (if p = 0 then (0, 0)
      else let k = max (binade p q) (- 1022) - 52
           in (if 0 \<le> k then round_half_even p (q * 2 ^ nat k)
               else round_half_even (p * 2 ^ nat (- k)) q, k))"

text \<open>
  The binary64 value nearest to a rational, as a rational. It is what a binary64
  operation with this exact result returns, as long as the magnitude stays below
  \<open>2 ^ 1024\<close>, where binary64 arithmetic overflows.
\<close>

definition binary64 :: "rat \<Rightarrow> rat" where
  "binary64 x = (let (p, q) = quotient_of \<bar>x\<bar>; (m, k) = round_binary64 p q;
                     y = of_int m * pow2 k
                 in if x < 0 then - y else y)"

text \<open>The Number nearest to a rational; from \<open>2 ^ 1024\<close> on it is infinite.\<close>

definition fl :: "rat \<Rightarrow> number" where
  "fl x = (let (p, q) = quotient_of \<bar>x\<bar>; (m, k) = round_binary64 p q
           in if 971 < k \<or> (k = 971 \<and> 2 ^ 53 \<le> m) then (if x < 0 then NegInf else PosInf)
              else Fin (binary64 x))"

fun neg :: "number \<Rightarrow> number" where
  "neg NaN = NaN"
| "neg PosInf = NegInf"
| "neg NegInf = PosInf"
| "neg (Fin x) = Fin (- x)"

subsection \<open>parseFloat\<close>

definition digitsValue :: "jsstring \<Rightarrow> int" where
  "digitsValue ds = foldl (\<lambda>a c. 10 * a + (c - 48)) 0 ds"

text \<open>
  ExponentPart: \<open>e\<close> or \<open>E\<close>, an optional sign and at least one digit; anything else is
  not part of the literal, which leaves the exponent 0.
\<close>

definition exponentPart :: "jsstring \<Rightarrow> int" where
  "exponentPart s =
     (case s of
        [] \<Rightarrow> 0
      | c # cs \<Rightarrow>
          if c = 101 \<or> c = 69 then
            (case cs of
               [] \<Rightarrow> 0
             | d # ds \<Rightarrow>
                 if d = 45 then - digitsValue (takeWhile isDigit ds)
                 else if d = 43 then digitsValue (takeWhile isDigit ds)
                 else digitsValue (takeWhile isDigit cs))
          else 0)"

text \<open>
  The longest prefix that is a StrUnsignedDecimalLiteral (\<open>Infinity\<close>, or digits with an
  optional fraction and exponent), and the Number nearest to its decimal value; NaN when
  no prefix is one.
\<close>

definition strUnsignedDecimalLiteral :: "jsstring \<Rightarrow> number" where
  "strUnsignedDecimalLiteral s =
     (if take 8 s = js ''Infinity'' then PosInf
      else let ip = takeWhile isDigit s;
               r = dropWhile isDigit s;
               fp = (case r of [] \<Rightarrow> [] | c # cs \<Rightarrow> if c = 46 then takeWhile isDigit cs else []);
               r2 = (case r of [] \<Rightarrow> [] | c # cs \<Rightarrow> if c = 46 then dropWhile isDigit cs else r)
           in if ip = [] \<and> fp = [] then NaN
              else let e = exponentPart r2 - int (length fp);
                       n = digitsValue (ip @ fp)
                   in fl (if 0 \<le> e then of_int n * 10 ^ nat e else of_int n / 10 ^ nat (- e)))"

definition parseFloat :: "jsstring \<Rightarrow> number" where
  "parseFloat s =
     (case dropWhile isSpace s of
        [] \<Rightarrow> NaN
      | c # cs \<Rightarrow>
          if c = 45 then neg (strUnsignedDecimalLiteral cs)
          else if c = 43 then strUnsignedDecimalLiteral cs
          else strUnsignedDecimalLiteral (c # cs))"

section \<open>The line-item extractor\<close>

record LineItem =
  name :: jsstring
  price :: number

subsection \<open>The keyword filter\<close>

text \<open>
  \<open>/total|subtotal|change|cash|visa|mastercard|date|time|tax/i.test(trimmedLine)\<close>.
  With the \<open>i\<close> flag and no \<open>u\<close> flag two code units match when their canonical forms
  (\<open>toUpperCase\<close>, never from a non-ASCII code unit to an ASCII one) are equal. The
  pattern has ASCII letters only, so for a code unit from 128 on all that matters is that
  its canonical form is no ASCII letter: it is left as it is.
\<close>

definition canonicalize :: "int \<Rightarrow> int" where
  "canonicalize c = (if 97 \<le> c \<and> c \<le> 122 then c - 32 else c)"

definition filterKeywords :: "jsstring list" where
  "filterKeywords = map js [''total'', ''subtotal'', ''change'', ''cash'', ''visa'', ''mastercard'',
                      ''date'', ''time'', ''tax'']"

fun matchesAtCI :: "jsstring \<Rightarrow> jsstring \<Rightarrow> bool" where
  "matchesAtCI [] s = True"
| "matchesAtCI (p # ps) [] = False"
| "matchesAtCI (p # ps) (c # cs) = (canonicalize p = canonicalize c \<and> matchesAtCI ps cs)"

fun keywordTest :: "jsstring \<Rightarrow> bool" where
  "keywordTest [] = list_ex (\<lambda>k. matchesAtCI k []) filterKeywords"
| "keywordTest (c # cs) = (list_ex (\<lambda>k. matchesAtCI k (c # cs)) filterKeywords \<or> keywordTest cs)"

subsection \<open>The name and price pattern\<close>

text \<open>
  \<open>/^(.+?)\s+([0-9]{1,3}(?:[.,\s]?[0-9]{3})*[.,][0-9]{2})\s*$/\<close>, as the backtracking
  matcher runs it. Each piece of the pattern maps a position (the rest of the line) to
  the list of the rests it can leave, in the order in which backtracking tries them.
\<close>

text \<open>\<open>[0-9]{n}\<close>\<close>

fun digitsN :: "nat \<Rightarrow> jsstring \<Rightarrow> jsstring list" where
  "digitsN 0 s = [s]"
| "digitsN (Suc n) [] = []"
| "digitsN (Suc n) (c # cs) = (if isDigit c then digitsN n cs else [])"

text \<open>\<open>[0-9]{1,3}\<close>, greedy: three digits first, then two, then one.\<close>

definition leadingDigits :: "jsstring \<Rightarrow> jsstring list" where
  "leadingDigits s = digitsN 3 s @ digitsN 2 s @ digitsN 1 s"

text \<open>\<open>[.,\s]?[0-9]{3}\<close>: the optional separator is tried first.\<close>

definition isGroupSep :: "int \<Rightarrow> bool" where
  "isGroupSep c \<longleftrightarrow> c = 46 \<or> c = 44 \<or> isSpace c"

definition digitGroup :: "jsstring \<Rightarrow> jsstring list" where
  "digitGroup s = (case s of [] \<Rightarrow> [] | c # cs \<Rightarrow> if isGroupSep c then digitsN 3 cs else [])
                  @ digitsN 3 s"

lemma digitsN_length: "r \<in> set (digitsN n s) \<Longrightarrow> length r + n = length s"
  by (induction n s rule: digitsN.induct) (auto split: if_splits)

lemma digitGroup_shorter: "r \<in> set (digitGroup s) \<Longrightarrow> length r < length s"
  by (auto simp: digitGroup_def split: list.splits if_splits dest: digitsN_length)

text \<open>\<open>(?:[.,\s]?[0-9]{3})*\<close>, greedy: one more group first, then none.\<close>

function digitGroups :: "jsstring \<Rightarrow> jsstring list" where
  "digitGroups s = concat (map digitGroups (digitGroup s)) @ [s]"
  by pat_completeness auto
termination
  by (relation "measure length") (auto dest: digitGroup_shorter)

text \<open>\<open>[.,][0-9]{2}\<close>\<close>

definition decimals :: "jsstring \<Rightarrow> jsstring list" where
  "decimals s = (case s of [] \<Rightarrow> [] | c # cs \<Rightarrow> if c = 46 \<or> c = 44 then digitsN 2 cs else [])"

text \<open>The second group \<open>([0-9]{1,3}(?:[.,\s]?[0-9]{3})*[.,][0-9]{2})\<close>.\<close>

definition priceToken :: "jsstring \<Rightarrow> jsstring list" where
  "priceToken s = concat (map (\<lambda>r. concat (map decimals (digitGroups r))) (leadingDigits s))"

text \<open>\<open>\s+\<close>, greedy: the longest run of white space first.\<close>

fun spaces1 :: "jsstring \<Rightarrow> jsstring list" where
  "spaces1 [] = []"
| "spaces1 (c # cs) = (if isSpace c then spaces1 cs @ [cs] else [])"

text \<open>
  \<open>\s+(...)\s*$\<close> from the end of the name on: the text captured by the second group in
  the first way that succeeds. \<open>\s*$\<close> succeeds exactly when what is left is white space.
\<close>

definition afterName :: "jsstring \<Rightarrow> jsstring option" where
  "afterName u =
     (case concat (map (\<lambda>v. map (\<lambda>r. take (length v - length r) v)
                                (filter (list_all isSpace) (priceToken v))) (spaces1 u)) of
        [] \<Rightarrow> None
      | t # _ \<Rightarrow> Some t)"

text \<open>
  \<open>(.+?)\<close>, lazy: the shortest name first, one more character (no line terminator) each
  time the rest of the pattern fails.
\<close>

fun lazyName :: "jsstring \<Rightarrow> jsstring \<Rightarrow> (jsstring \<times> jsstring) option" where
  "lazyName n u =
     (case afterName u of
        Some t \<Rightarrow> Some (n, t)
      | None \<Rightarrow>
          (case u of
             [] \<Rightarrow> None
           | c # cs \<Rightarrow> if isLineTerminator c then None else lazyName (n @ [c]) cs))"

text \<open>
  \<open>trimmedLine.match(priceRegex)\<close>: the two captures, or None for null. The pattern is
  anchored by \<open>^\<close>, so only a match from the first character on exists.
\<close>

definition priceRegex :: "jsstring \<Rightarrow> (jsstring \<times> jsstring) option" where
  "priceRegex s =
     (case s of
        [] \<Rightarrow> None
      | c # cs \<Rightarrow> if isLineTerminator c then None else lazyName [c] cs)"

subsection \<open>The shape of a price token\<close>

text \<open>
  The second group of the pattern, read as a description of the token: one to three
  digits, any number of groups of three digits, each with or without a separator (dot,
  comma or white space) before it, then a dot or a comma and two digits.
\<close>

definition digitString :: "nat \<Rightarrow> jsstring \<Rightarrow> bool" where
  "digitString n d \<longleftrightarrow> length d = n \<and> list_all isDigit d"

definition isGroup :: "jsstring \<Rightarrow> bool" where
  "isGroup g \<longleftrightarrow>
     digitString 3 g \<or> (case g of [] \<Rightarrow> False | c # d \<Rightarrow> isGroupSep c \<and> digitString 3 d)"

definition priceShape :: "jsstring \<Rightarrow> bool" where
  "priceShape t \<longleftrightarrow>
     (\<exists>l gs c d. t = l @ concat gs @ c # d \<and> 1 \<le> length l \<and> length l \<le> 3
        \<and> list_all isDigit l \<and> list_all isGroup gs \<and> (c = 46 \<or> c = 44) \<and> digitString 2 d)"

text \<open>
  The shape in the words of the specification, to compare: there every group of three
  digits has its separator.
\<close>

definition isSeparatedGroup :: "jsstring \<Rightarrow> bool" where
  "isSeparatedGroup g \<longleftrightarrow> (case g of [] \<Rightarrow> False | c # d \<Rightarrow> isGroupSep c \<and> digitString 3 d)"

definition specPriceShape :: "jsstring \<Rightarrow> bool" where
  "specPriceShape t \<longleftrightarrow>
     (\<exists>l gs c d. t = l @ concat gs @ c # d \<and> 1 \<le> length l \<and> length l \<le> 3
        \<and> list_all isDigit l \<and> list_all isSeparatedGroup gs \<and> (c = 46 \<or> c = 44)
        \<and> digitString 2 d)"

subsection \<open>Name clean-up and price normalization\<close>

text \<open>\<open>[.|_ U+2014 -]\<close>: dot, pipe, underscore, em dash (U+2014), hyphen.\<close>

definition isLeader :: "int \<Rightarrow> bool" where
  "isLeader c \<longleftrightarrow> c = 46 \<or> c = 124 \<or> c = 95 \<or> c = 8212 \<or> c = 45"

text \<open>\<open>[a-zA-Z0-9\s%&()-]\<close>\<close>

definition isNameChar :: "int \<Rightarrow> bool" where
  "isNameChar c \<longleftrightarrow>
     (97 \<le> c \<and> c \<le> 122) \<or> (65 \<le> c \<and> c \<le> 90) \<or> isDigit c \<or> isSpace c \<or>
     c = 37 \<or> c = 38 \<or> c = 40 \<or> c = 41 \<or> c = 45"

text \<open>
  \<open>match[1].trim().replace(/[.|_ U+2014 -]+$/, '').replace(/[^a-zA-Z0-9\s%&()-]/g, '')\<close>.
  The first replacement has no \<open>g\<close> flag: its only match is the longest run of leader
  characters that ends the string.
\<close>

definition cleanName :: "jsstring \<Rightarrow> jsstring" where
  "cleanName raw = filter isNameChar (rev (dropWhile isLeader (rev (trim raw))))"

text \<open>
  Lines 117 to 124: \<open>priceStr\<close> without white space, then the branch on
  \<open>priceStr.indexOf(',') > priceStr.indexOf('.')\<close>.
\<close>

definition normalizePrice :: "jsstring \<Rightarrow> jsstring" where
  "normalizePrice tok =
     (let priceStr = filter (\<lambda>c. \<not> isSpace c) tok
      in if indexOf 44 priceStr > indexOf 46 priceStr
         then replaceFirst 44 46 (filter (\<lambda>c. c \<noteq> 46) priceStr)
         else filter (\<lambda>c. c \<noteq> 44) priceStr)"

text \<open>
  The normalization in the words of the specification and of the comments of the code
  (\<open>The LAST separator is the decimal separator\<close>), to compare: the branch is taken on
  the last occurrences.
\<close>

definition lastIndexOf :: "int \<Rightarrow> jsstring \<Rightarrow> int" where
  "lastIndexOf c s = (let i = indexOf c (rev s) in if i < 0 then -1 else int (length s) - 1 - i)"

definition specNormalizePrice :: "jsstring \<Rightarrow> jsstring" where
  "specNormalizePrice tok =
     (let priceStr = filter (\<lambda>c. \<not> isSpace c) tok
      in if lastIndexOf 44 priceStr > lastIndexOf 46 priceStr
         then replaceFirst 44 46 (filter (\<lambda>c. c \<noteq> 46) priceStr)
         else filter (\<lambda>c. c \<noteq> 44) priceStr)"

subsection \<open>The loop over the lines\<close>

text \<open>The sanity checks of line 129.\<close>

definition sane :: "jsstring \<Rightarrow> number \<Rightarrow> bool" where
  "sane nm p \<longleftrightarrow> 1 < length nm \<and> \<not> isNaN p \<and> num_less (Fin 0) p \<and> num_less p (Fin 10000)"

text \<open>The body of the \<open>for\<close> loop: the item pushed for a line, None when none is.\<close>

definition processLine :: "jsstring \<Rightarrow> LineItem option" where
  "processLine line =
     (let trimmedLine = trim line
      in if keywordTest trimmedLine then None
         else if length trimmedLine < 5 then None
         else (case priceRegex trimmedLine of
                 None \<Rightarrow> None
               | Some (m1, m2) \<Rightarrow>
                   let nm = cleanName m1;
                       p = parseFloat (normalizePrice m2)
                   in if sane nm p then Some \<lparr>name = nm, price = p\<rparr> else None))"

fun pushItems :: "LineItem list \<Rightarrow> jsstring list \<Rightarrow> LineItem list" where
  "pushItems items [] = items"
| "pushItems items (line # lines) =
     pushItems (case processLine line of None \<Rightarrow> items | Some it \<Rightarrow> items @ [it]) lines"

text \<open>Step 3 of \<open>parseReceiptImage\<close>: the items found in the recognized text.\<close>

definition extractItems :: "jsstring \<Rightarrow> LineItem list" where
  "extractItems text = pushItems [] (split_lines text)"

section \<open>The image normalizer\<close>

text \<open>
  \<open>Math.round\<close> of a finite Number: the nearest integer, a tie going up. The sum is the
  exact one, not a binary64 addition.
\<close>

definition mathRound :: "rat \<Rightarrow> int" where
  "mathRound x = \<lfloor>x + 1 / 2\<rfloor>"

definition MAX_WIDTH :: int where
  "MAX_WIDTH = 1500"

text \<open>
  Lines 27 to 33: the width and height given to the canvas, from those of the image
  (two non-negative integers). The product and the quotient are binary64 operations (no
  image is large enough for them to overflow).
\<close>

definition canvasSize :: "int \<Rightarrow> int \<Rightarrow> int \<times> int" where
  "canvasSize width height =
     (if MAX_WIDTH < width
      then (MAX_WIDTH,
            mathRound (binary64 (binary64 (of_int height * of_int MAX_WIDTH) / of_int width)))
      else (width, height))"

text \<open>
  Line 52, \<open>0.2126 * r + 0.7152 * g + 0.0722 * b\<close>: three binary64 products of a binary64
  constant and a channel, added from left to right.
\<close>

definition luminosity :: "int \<Rightarrow> int \<Rightarrow> int \<Rightarrow> rat" where
  "luminosity r g b =
     binary64 (binary64 (binary64 (binary64 (2126 / 10000) * of_int r)
                       + binary64 (binary64 (7152 / 10000) * of_int g))
             + binary64 (binary64 (722 / 10000) * of_int b))"

text \<open>Line 59.\<close>

definition contrast :: "rat \<Rightarrow> rat" where
  "contrast gray = (if 120 < gray then 255 else if gray < 80 then 0 else gray)"

text \<open>
  A store into the \<open>Uint8ClampedArray\<close> of the image data: the value is clamped to 0
  and 255 and rounded to the nearest integer, a tie going to the even one.
\<close>

definition toUint8Clamp :: "rat \<Rightarrow> int" where
  "toUint8Clamp x = (if x \<le> 0 then 0 else if 255 \<le> x then 255
                     else (let (p, q) = quotient_of x in round_half_even p q))"

text \<open>
  The loop of lines 46 to 64 over the image data, four bytes (red, green, blue, alpha) a
  pixel. The length of the data of a canvas is a multiple of four.
\<close>

fun contrastFilter :: "int list \<Rightarrow> int list" where
  "contrastFilter (r # g # b # a # data) =
     (let gray = toUint8Clamp (contrast (luminosity r g b))
      in gray # gray # gray # a # contrastFilter data)"
| "contrastFilter data = data"

text \<open>
  The luminance in the words of the specification, to compare: the weighted sum itself,
  without the rounding of binary64 arithmetic.
\<close>

definition specLuminance :: "int \<Rightarrow> int \<Rightarrow> int \<Rightarrow> rat" where
  "specLuminance r g b = 2126 / 10000 * of_int r + 7152 / 10000 * of_int g + 722 / 10000 * of_int b"

section \<open>parseReceiptImage and the platform around it\<close>

text \<open>
  What \<open>parseReceiptImage\<close> hands to \<open>worker.recognize\<close>: the data URL it was given, or
  the JPEG data URL of the canvas, of the given width and height.
\<close>

datatype ocr_input = OriginalImage | ProcessedImage int int

text \<open>
  The platform decides how each awaited call ends:
  \<^item> \<open>loaded\<close>: the image fires \<open>onload\<close>, with its width and height, or \<open>onerror\<close> (None);
  \<^item> \<open>has_context\<close>: \<open>canvas.getContext('2d')\<close> is not null;
  \<^item> \<open>worker_created\<close>: \<open>createWorker('eng')\<close> resolves;
  \<^item> \<open>recognized\<close>: \<open>worker.recognize\<close> resolves with a text, or rejects (None);
  \<^item> \<open>terminated\<close>: \<open>worker.terminate()\<close> resolves.
\<close>

record platform =
  loaded :: "(int \<times> int) option"
  has_context :: bool
  worker_created :: bool
  recognized :: "ocr_input \<Rightarrow> jsstring option"
  terminated :: bool

text \<open>The calls made on the OCR engine and on the console, in the order made.\<close>

datatype event =
  CreateWorker
| Recognize ocr_input
| Terminate
| ConsoleWarn jsstring
| ConsoleError

text \<open>\<open>Error("Failed to process image. It might be too large or unclear.")\<close>\<close>

datatype failure = FailedToProcessImage

record ParseResult =
  items :: "LineItem list"

text \<open>The promise of \<open>preprocessImage\<close>: rejected (Inl) or resolved with an image.\<close>

definition preprocessImage :: "platform \<Rightarrow> unit + ocr_input" where
  "preprocessImage pf =
     (case loaded pf of
        None \<Rightarrow> Inl ()
      | Some (width, height) \<Rightarrow>
          if \<not> has_context pf then Inr OriginalImage
          else (case canvasSize width height of (w, h) \<Rightarrow> Inr (ProcessedImage w h)))"

text \<open>
  The promise of \<open>parseReceiptImage\<close>, rejected (Inl) or resolved (Inr), with the calls it
  made. Every rejection inside the \<open>try\<close> block ends in the \<open>catch\<close> clause, which
  logs the error and throws the failure.
\<close>

definition parseReceiptImage :: "platform \<Rightarrow> (failure + ParseResult) \<times> event list" where
  "parseReceiptImage pf =
     (case preprocessImage pf of
        Inl e \<Rightarrow> (Inl FailedToProcessImage, [ConsoleError])
      | Inr processedImage \<Rightarrow>
          if \<not> worker_created pf then (Inl FailedToProcessImage, [CreateWorker, ConsoleError])
          else (case recognized pf processedImage of
                  None \<Rightarrow>
                    (Inl FailedToProcessImage,
                     [CreateWorker, Recognize processedImage, ConsoleError])
                | Some text \<Rightarrow>
                    if \<not> terminated pf
                    then (Inl FailedToProcessImage,
                          [CreateWorker, Recognize processedImage, Terminate, ConsoleError])
                    else (let its = extractItems text
                          in (Inr \<lparr>items = its\<rparr>,
                              [CreateWorker, Recognize processedImage, Terminate]
                              @ (if length its = 0 then [ConsoleWarn (take 200 text)] else [])))))"

text \<open>
  The equations of the functions that recur under a condition are unfolded by hand in
  the proofs below.
\<close>

declare lazyName.simps [simp del] digitGroups.simps [simp del] log2floor.simps [simp del]

section \<open>Properties of the extractor on concrete receipts\<close>

text \<open>
  Claim C1. The price normalization is meant to take the rightmost of \<open>,\<close> and \<open>.\<close> as the
  decimal separator. The four lines of the specification come out as stated:
  \<open>Coffee 1.234,56\<close> and \<open>Coffee 1,234.56\<close> give 1234.56, \<open>Coffee 10,50\<close> gives 10.5 and
  \<open>Coffee 10.00\<close> gives 10. But the branch compares the first occurrences
  (\<open>indexOf\<close>), not the last ones: in the token \<open>1.234,567.89\<close>, which the pattern
  accepts, the rightmost separator is the dot, and the code removes the dots and turns
  the comma into the decimal point, so that the price is 1234.56789. With the dot as the
  decimal separator and the commas removed, the string is \<open>1.234567.89\<close> and the number
  parsed from it 1.234567.
\<close>

theorem normalizePrice_compares_first_occurrences:
  "priceRegex (js ''Coffee 1.234,567.89'') = Some (js ''Coffee'', js ''1.234,567.89'')
   \<and> normalizePrice (js ''1.234,567.89'') = js ''1234.56789''
   \<and> processLine (js ''Coffee 1.234,567.89'')
       = Some \<lparr>name = js ''Coffee'', price = fl (123456789 / 100000)\<rparr>
   \<and> specNormalizePrice (js ''1.234,567.89'') = js ''1.234567.89''
   \<and> parseFloat (specNormalizePrice (js ''1.234,567.89'')) = fl (1234567 / 1000000)
   \<and> fl (1234567 / 1000000) \<noteq> fl (123456789 / 100000)
   \<and> processLine (js ''Coffee 1.234,56'') = Some \<lparr>name = js ''Coffee'', price = fl (123456 / 100)\<rparr>
   \<and> processLine (js ''Coffee 1,234.56'') = Some \<lparr>name = js ''Coffee'', price = fl (123456 / 100)\<rparr>
   \<and> processLine (js ''Coffee 10,50'') = Some \<lparr>name = js ''Coffee'', price = Fin (21 / 2)\<rparr>
   \<and> processLine (js ''Coffee 10.00'') = Some \<lparr>name = js ''Coffee'', price = Fin 10\<rparr>"
  by code_simp

text \<open>
  Claim C2, as stated: the six-line receipt would give the two items Burger (10.00) and
  Fries (5.50). It does not: no white space separates the dot leaders of
  \<open>Burger........10.00\<close> from the price, and the pattern asks for some (\<open>\s+\<close>).
\<close>

theorem scenario_two_items_counterexample:
  "extractItems (js ''BURGER PLACE\<newline>Burger........10.00\<newline>Fries 5,50\<newline>SUBTOTAL 15.50\<newline>TAX 1.50\<newline>TOTAL 17.00'')
   \<noteq> [\<lparr>name = js ''Burger'', price = Fin 10\<rparr>, \<lparr>name = js ''Fries'', price = Fin (11 / 2)\<rparr>]"
  by code_simp

text \<open>
  Claim C2, as amended: the six-line receipt gives the single item Fries (5.50); the
  header line has no price, the three boilerplate lines are rejected by the keyword
  filter, and \<open>Burger........10.00\<close> does not match the pattern. With white space before
  the price (\<open>Burger........ 10.00\<close>) the result is the two items, in line order, and the
  dot leaders are stripped from the name.
\<close>

theorem scenario_receipt_items:
  "extractItems (js ''BURGER PLACE\<newline>Burger........10.00\<newline>Fries 5,50\<newline>SUBTOTAL 15.50\<newline>TAX 1.50\<newline>TOTAL 17.00'')
     = [\<lparr>name = js ''Fries'', price = Fin (11 / 2)\<rparr>]
   \<and> priceRegex (js ''BURGER PLACE'') = None
   \<and> priceRegex (js ''Burger........10.00'') = None
   \<and> keywordTest (js ''SUBTOTAL 15.50'') \<and> keywordTest (js ''TAX 1.50'')
   \<and> keywordTest (js ''TOTAL 17.00'')
   \<and> extractItems (js ''BURGER PLACE\<newline>Burger........ 10.00\<newline>Fries 5,50\<newline>SUBTOTAL 15.50\<newline>TAX 1.50\<newline>TOTAL 17.00'')
     = [\<lparr>name = js ''Burger'', price = Fin 10\<rparr>, \<lparr>name = js ''Fries'', price = Fin (11 / 2)\<rparr>]"
  by code_simp

section \<open>Properties of parseReceiptImage\<close>

text \<open>
  Claim C7, as stated: when the image cannot be loaded, the OCR would run on the
  original image and no error would reach the caller. It does not: \<open>img.onerror\<close>
  rejects the promise of \<open>preprocessImage\<close>, and \<open>parseReceiptImage\<close> fails before any
  worker is created.
\<close>

theorem image_load_error_counterexample:
  "parseReceiptImage \<lparr>loaded = None, has_context = True, worker_created = True,
                      recognized = (\<lambda>_. Some (js ''Fries 5,50'')), terminated = True\<rparr>
   = (Inl FailedToProcessImage, [ConsoleError])"
  by code_simp

text \<open>
  Claim C7, as amended: when the image cannot be loaded, \<open>preprocessImage\<close> rejects and
  \<open>parseReceiptImage\<close> rejects with its failure, without a call to the OCR engine. The
  fallback to the original image is taken only for a canvas without 2D context: then the
  original image is what \<open>worker.recognize\<close> is given, and whenever \<open>worker.recognize\<close>
  is given the original image, the image was loaded and the canvas had no 2D context.
\<close>

theorem image_load_error_rejects:
  "(loaded pf = None \<longrightarrow> parseReceiptImage pf = (Inl FailedToProcessImage, [ConsoleError]))
   \<and> (loaded pf = Some (w, h) \<and> \<not> has_context pf \<and> worker_created pf
        \<longrightarrow> take 2 (snd (parseReceiptImage pf)) = [CreateWorker, Recognize OriginalImage])
   \<and> (Recognize OriginalImage \<in> set (snd (parseReceiptImage pf))
        \<longrightarrow> \<not> has_context pf \<and> loaded pf \<noteq> None)"
  by (auto simp: parseReceiptImage_def preprocessImage_def Let_def
      split: option.splits if_splits prod.splits)

theorem image_load_error_rejects_witness:
  "loaded \<lparr>loaded = None, has_context = True, worker_created = True,
            recognized = (\<lambda>_. Some []), terminated = True\<rparr> = None
   \<and> parseReceiptImage \<lparr>loaded = None, has_context = True, worker_created = True,
                        recognized = (\<lambda>_. Some []), terminated = True\<rparr>
       = (Inl FailedToProcessImage, [ConsoleError])
   \<and> take 2 (snd (parseReceiptImage \<lparr>loaded = Some (4000, 3000), has_context = False,
                        worker_created = True, recognized = (\<lambda>_. Some []), terminated = True\<rparr>))
       = [CreateWorker, Recognize OriginalImage]
   \<and> Recognize OriginalImage
       \<in> set (snd (parseReceiptImage \<lparr>loaded = Some (4000, 3000), has_context = False,
                        worker_created = True, recognized = (\<lambda>_. Some []), terminated = True\<rparr>))
   \<and> \<not> has_context \<lparr>loaded = Some (4000, 3000), has_context = False,
                        worker_created = True, recognized = (\<lambda>_. Some []), terminated = True\<rparr>
   \<and> loaded \<lparr>loaded = Some (4000, 3000), has_context = False,
                        worker_created = True, recognized = (\<lambda>_. Some []), terminated = True\<rparr>
       \<noteq> None"
proof -
  let ?pf1 = "\<lparr>loaded = None, has_context = True, worker_created = True,
            recognized = (\<lambda>_. Some []), terminated = True\<rparr>"
  let ?pf2 = "\<lparr>loaded = Some (4000, 3000), has_context = False,
            worker_created = True, recognized = (\<lambda>_. Some []), terminated = True\<rparr>"
  have a: "loaded ?pf1 = None" by simp
  have b: "loaded ?pf2 = Some (4000, 3000) \<and> \<not> has_context ?pf2 \<and> worker_created ?pf2" by simp
  have c: "Recognize OriginalImage \<in> set (snd (parseReceiptImage ?pf2))" by code_simp
  from image_load_error_rejects [of ?pf1] a
  have 1: "parseReceiptImage ?pf1 = (Inl FailedToProcessImage, [ConsoleError])" by blast
  from image_load_error_rejects [of ?pf2 4000 3000] b c
  have 2: "take 2 (snd (parseReceiptImage ?pf2)) = [CreateWorker, Recognize OriginalImage]"
    and 3: "\<not> has_context ?pf2 \<and> loaded ?pf2 \<noteq> None" by blast+
  from a 1 2 3 c show ?thesis by blast
qed

text \<open>
  Claim C9. The worker is terminated once \<open>worker.recognize\<close> has resolved, before the
  text is parsed. When \<open>worker.recognize\<close> rejects, control goes to the \<open>catch\<close> clause,
  which logs and throws: the worker that was created is never terminated.
\<close>

theorem worker_not_terminated_when_recognize_rejects:
  "parseReceiptImage \<lparr>loaded = Some (800, 600), has_context = True, worker_created = True,
                      recognized = (\<lambda>_. None), terminated = True\<rparr>
     = (Inl FailedToProcessImage, [CreateWorker, Recognize (ProcessedImage 800 600), ConsoleError])
   \<and> Terminate \<notin> set (snd (parseReceiptImage \<lparr>loaded = Some (800, 600), has_context = True,
                      worker_created = True, recognized = (\<lambda>_. None), terminated = True\<rparr>))
   \<and> parseReceiptImage \<lparr>loaded = Some (800, 600), has_context = True, worker_created = True,
                      recognized = (\<lambda>_. Some (js ''Fries 5,50'')), terminated = True\<rparr>
     = (Inr \<lparr>items = [\<lparr>name = js ''Fries'', price = Fin (11 / 2)\<rparr>]\<rparr>,
        [CreateWorker, Recognize (ProcessedImage 800 600), Terminate])"
  by code_simp

section \<open>Properties of the keyword filter\<close>

lemma matchesAtCI_append:
  "map canonicalize w = map canonicalize k \<Longrightarrow> matchesAtCI k (w @ post)"
proof (induction k arbitrary: w)
  case Nil
  then show ?case by simp
next
  case (Cons p ps)
  then obtain c cs where w: "w = c # cs" by (cases w) auto
  with Cons show ?case by simp
qed

lemma keywordTest_here:
  "list_ex (\<lambda>k. matchesAtCI k s) filterKeywords \<Longrightarrow> keywordTest s"
  by (cases s) auto

lemma keywordTest_append:
  "keywordTest s \<Longrightarrow> keywordTest (pre @ s)"
  by (induction pre) auto

lemma dropWhile_keeps_word:
  assumes "w \<noteq> []" "\<forall>x\<in>set w. \<not> P x"
  shows "\<exists>pre'. dropWhile P (pre @ w @ post) = pre' @ w @ post"
proof (induction pre)
  case Nil
  from assms obtain x xs where "w = x # xs" "\<not> P x" by (cases w) auto
  then have "dropWhile P ([] @ w @ post) = [] @ w @ post" by simp
  then show ?case by blast
next
  case (Cons a pre)
  then obtain pre' where "dropWhile P (pre @ w @ post) = pre' @ w @ post" by blast
  then show ?case by (cases "P a") (auto intro: exI [of _ "a # pre"])
qed

lemma trim_keeps_word:
  assumes "w \<noteq> []" "\<forall>x\<in>set w. \<not> isSpace x"
  shows "\<exists>pre' post'. trim (pre @ w @ post) = pre' @ w @ post'"
proof -
  from dropWhile_keeps_word [OF assms, of pre post]
  obtain p where p: "dropWhile isSpace (pre @ w @ post) = p @ w @ post" by blast
  have "rev w \<noteq> []" "\<forall>x\<in>set (rev w). \<not> isSpace x" using assms by auto
  from dropWhile_keeps_word [OF this, of "rev post" "rev p"]
  obtain q where q: "dropWhile isSpace (rev post @ rev w @ rev p) = q @ rev w @ rev p" by blast
  have "trim (pre @ w @ post) = p @ w @ rev q"
    by (simp add: trim_def p q)
  then show ?thesis by blast
qed

lemma filterKeywords_letters:
  "k \<in> set filterKeywords \<Longrightarrow> k \<noteq> [] \<and> (\<forall>c\<in>set k. 97 \<le> c \<and> c \<le> 122)"
  by (auto simp: filterKeywords_def js_def)

lemma canonicalize_letter:
  "canonicalize x = canonicalize c \<Longrightarrow> 97 \<le> c \<Longrightarrow> c \<le> 122 \<Longrightarrow> \<not> isSpace x"
  by (auto simp: canonicalize_def isSpace_def split: if_splits)

lemma keyword_word_no_space:
  assumes "k \<in> set filterKeywords" "map canonicalize w = map canonicalize k"
  shows "w \<noteq> [] \<and> (\<forall>x\<in>set w. \<not> isSpace x)"
proof -
  from assms(2) have len: "length w = length k" by (metis length_map)
  from filterKeywords_letters [OF assms(1)] have k: "k \<noteq> []" "\<forall>c\<in>set k. 97 \<le> c \<and> c \<le> 122"
    by auto
  have "\<not> isSpace x" if "x \<in> set w" for x
  proof -
    from that obtain i where i: "i < length w" "w ! i = x" by (auto simp: in_set_conv_nth)
    from assms(2) i len have "canonicalize x = canonicalize (k ! i)"
      by (metis nth_map)
    moreover have "97 \<le> k ! i \<and> k ! i \<le> 122" using k(2) i len by auto
    ultimately show ?thesis using canonicalize_letter by blast
  qed
  with k(1) len show ?thesis by auto
qed

lemma keywordTest_contains:
  assumes "k \<in> set filterKeywords" "map canonicalize w = map canonicalize k"
  shows "keywordTest (pre @ w @ post)"
proof -
  have "matchesAtCI k (w @ post)" using assms(2) by (rule matchesAtCI_append)
  with assms(1) have "list_ex (\<lambda>k. matchesAtCI k (w @ post)) filterKeywords"
    by (auto simp: list_ex_iff)
  then show ?thesis by (intro keywordTest_append keywordTest_here)
qed

lemma matchesAtCI_split:
  "matchesAtCI k s \<Longrightarrow> \<exists>w post. s = w @ post \<and> map canonicalize w = map canonicalize k"
proof (induction k arbitrary: s)
  case Nil
  then show ?case by simp
next
  case (Cons p ps)
  then obtain c cs where s: "s = c # cs" and c: "canonicalize p = canonicalize c"
    and rest: "matchesAtCI ps cs" by (cases s) auto
  from Cons.IH [OF rest] obtain w post where "cs = w @ post"
    "map canonicalize w = map canonicalize ps" by blast
  with s c have "s = (c # w) @ post \<and> map canonicalize (c # w) = map canonicalize (p # ps)"
    by simp
  then show ?case by blast
qed

lemma keywordTest_split:
  "keywordTest s \<Longrightarrow>
     \<exists>k\<in>set filterKeywords. \<exists>pre w post. s = pre @ w @ post
        \<and> map canonicalize w = map canonicalize k"
proof (induction s)
  case Nil
  then obtain k where k: "k \<in> set filterKeywords" "matchesAtCI k []"
    by (auto simp: list_ex_iff)
  from matchesAtCI_split [OF k(2)] obtain w post where
    "[] = [] @ w @ post" "map canonicalize w = map canonicalize k" by auto
  with k(1) show ?case by blast
next
  case (Cons c cs)
  then consider (here) k where "k \<in> set filterKeywords" "matchesAtCI k (c # cs)"
    | (later) "keywordTest cs"
    by (auto simp: list_ex_iff)
  then show ?case
  proof cases
    case here
    from matchesAtCI_split [OF here(2)] obtain w post where
      "c # cs = [] @ w @ post" "map canonicalize w = map canonicalize k" by auto
    with here(1) show ?thesis by blast
  next
    case later
    from Cons.IH [OF this] obtain k pre w post where k: "k \<in> set filterKeywords"
      and "cs = pre @ w @ post" "map canonicalize w = map canonicalize k" by blast
    then have "c # cs = (c # pre) @ w @ post \<and> map canonicalize w = map canonicalize k" by simp
    with k show ?thesis by blast
  qed
qed

text \<open>
  The filter matches exactly the strings that contain the letters of a keyword, each in
  either case.
\<close>

lemma keywordTest_iff:
  "keywordTest s \<longleftrightarrow>
     (\<exists>k\<in>set filterKeywords. \<exists>pre w post. s = pre @ w @ post
        \<and> map canonicalize w = map canonicalize k)"
  using keywordTest_split keywordTest_contains by blast

text \<open>
  Claim C5. A line on which the keyword filter matches (case-insensitively; the
  keywords are total, subtotal, change, cash, visa, mastercard, date, time, tax) gives no
  item and leaves the result as it was, whatever the name and price pattern and the
  sanity checks would have said: the filter is tested first.
\<close>

theorem keyword_lines_yield_nothing:
  "keywordTest (trim line) \<Longrightarrow>
     processLine line = None \<and> pushItems its (line # lines) = pushItems its lines"
  by (simp add: processLine_def)

theorem keyword_lines_yield_nothing_witness:
  "keywordTest (trim (js ''TOTAL 17.00''))
   \<and> priceRegex (trim (js ''TOTAL 17.00'')) = Some (js ''TOTAL'', js ''17.00'')
   \<and> sane (cleanName (js ''TOTAL'')) (parseFloat (normalizePrice (js ''17.00'')))
   \<and> processLine (js ''TOTAL 17.00'') = None
   \<and> pushItems [] [js ''TOTAL 17.00'', js ''Fries 5,50''] = pushItems [] [js ''Fries 5,50'']"
proof -
  have a: "keywordTest (trim (js ''TOTAL 17.00''))" by code_simp
  have b: "priceRegex (trim (js ''TOTAL 17.00'')) = Some (js ''TOTAL'', js ''17.00'')" by code_simp
  have c: "sane (cleanName (js ''TOTAL'')) (parseFloat (normalizePrice (js ''17.00'')))" by code_simp
  from keyword_lines_yield_nothing [OF a, of "[]" "[js ''Fries 5,50'']"] a b c show ?thesis by blast
qed

text \<open>
  Claim C10. The filter looks for a keyword anywhere in the line, not for a whole word: a
  line that contains the letters of a keyword, in either case, gives no item, as
  \<open>Taxi 4.50\<close> (tax) and \<open>Dates 3.00\<close> (date) do although they match the pattern and pass
  the sanity checks.
\<close>

theorem keyword_inside_word_rejected:
  assumes "k \<in> set filterKeywords" "map canonicalize w = map canonicalize k"
  shows "keywordTest (trim (pre @ w @ post)) \<and> processLine (pre @ w @ post) = None"
proof -
  from keyword_word_no_space [OF assms] trim_keeps_word [of w pre post]
  obtain pre' post' where "trim (pre @ w @ post) = pre' @ w @ post'" by blast
  with keywordTest_contains [OF assms, of pre' post'] show ?thesis
    by (simp add: processLine_def)
qed

theorem keyword_inside_word_rejected_witness:
  "js ''tax'' \<in> set filterKeywords
   \<and> map canonicalize (js ''Tax'') = map canonicalize (js ''tax'')
   \<and> priceRegex (js ''Taxi 4.50'') = Some (js ''Taxi'', js ''4.50'')
   \<and> sane (cleanName (js ''Taxi'')) (parseFloat (normalizePrice (js ''4.50'')))
   \<and> processLine (js ''Taxi 4.50'') = None
   \<and> priceRegex (js ''Dates 3.00'') = Some (js ''Dates'', js ''3.00'')
   \<and> sane (cleanName (js ''Dates'')) (parseFloat (normalizePrice (js ''3.00'')))
   \<and> processLine (js ''Dates 3.00'') = None"
proof -
  have a: "js ''tax'' \<in> set filterKeywords" by code_simp
  have b: "map canonicalize (js ''Tax'') = map canonicalize (js ''tax'')" by code_simp
  have c: "js ''date'' \<in> set filterKeywords" by code_simp
  have d: "map canonicalize (js ''Date'') = map canonicalize (js ''date'')" by code_simp
  have e: "[] @ js ''Tax'' @ js ''i 4.50'' = js ''Taxi 4.50''" by code_simp
  have f: "[] @ js ''Date'' @ js ''s 3.00'' = js ''Dates 3.00''" by code_simp
  have g: "priceRegex (js ''Taxi 4.50'') = Some (js ''Taxi'', js ''4.50'')" by code_simp
  have h: "sane (cleanName (js ''Taxi'')) (parseFloat (normalizePrice (js ''4.50'')))" by code_simp
  have i: "priceRegex (js ''Dates 3.00'') = Some (js ''Dates'', js ''3.00'')" by code_simp
  have j: "sane (cleanName (js ''Dates'')) (parseFloat (normalizePrice (js ''3.00'')))" by code_simp
  from keyword_inside_word_rejected [OF a b, of "[]" "js ''i 4.50''"] e
  have k: "processLine (js ''Taxi 4.50'') = None" by simp
  from keyword_inside_word_rejected [OF c d, of "[]" "js ''s 3.00''"] f
  have l: "processLine (js ''Dates 3.00'') = None" by simp
  from a b g h i j k l show ?thesis by blast
qed

section \<open>The sanity checks\<close>

lemma processLine_sane: "processLine line = Some it \<Longrightarrow> sane (name it) (price it)"
  by (auto simp: processLine_def Let_def split: if_splits option.splits prod.splits)

lemma pushItems_sane:
  "\<forall>it\<in>set acc. sane (name it) (price it) \<Longrightarrow>
   \<forall>it\<in>set (pushItems acc lines). sane (name it) (price it)"
proof (induction lines arbitrary: acc)
  case Nil
  then show ?case by simp
next
  case (Cons line lines)
  have "\<forall>it\<in>set (case processLine line of None \<Rightarrow> acc | Some it \<Rightarrow> acc @ [it]).
          sane (name it) (price it)"
    using Cons.prems by (auto split: option.splits dest: processLine_sane)
  from Cons.IH [OF this] show ?case by simp
qed

text \<open>
  Claim C4. Every item of the result passed the sanity checks when it was pushed: its
  name has more than one character and its price is a number above 0 and below 10000.
  At the bounds: a price of exactly 10000 is rejected and 9999.99 is accepted; a name
  of one character is rejected and a name of two characters is accepted.
\<close>

theorem items_satisfy_sanity:
  "(it \<in> set (extractItems text) \<longrightarrow>
      1 < length (name it) \<and> \<not> isNaN (price it)
      \<and> num_less (Fin 0) (price it) \<and> num_less (price it) (Fin 10000))
   \<and> priceRegex (js ''Coffee 10000.00'') = Some (js ''Coffee'', js ''10000.00'')
   \<and> parseFloat (normalizePrice (js ''10000.00'')) = Fin 10000
   \<and> processLine (js ''Coffee 10000.00'') = None
   \<and> processLine (js ''Coffee 9999.99'') = Some \<lparr>name = js ''Coffee'', price = fl (999999 / 100)\<rparr>
   \<and> priceRegex (js ''A 10.00'') = Some (js ''A'', js ''10.00'')
   \<and> cleanName (js ''A'') = js ''A''
   \<and> processLine (js ''A 10.00'') = None
   \<and> processLine (js ''AB 10.00'') = Some \<lparr>name = js ''AB'', price = Fin 10\<rparr>
   \<and> processLine (js ''Coffee 0.00'') = None"
proof -
  have "\<forall>it\<in>set (extractItems text). sane (name it) (price it)"
    unfolding extractItems_def by (rule pushItems_sane) simp
  then have g: "it \<in> set (extractItems text) \<longrightarrow>
      1 < length (name it) \<and> \<not> isNaN (price it)
      \<and> num_less (Fin 0) (price it) \<and> num_less (price it) (Fin 10000)"
    by (auto simp: sane_def)
  have b1: "priceRegex (js ''Coffee 10000.00'') = Some (js ''Coffee'', js ''10000.00'')"
    by code_simp
  have b2: "parseFloat (normalizePrice (js ''10000.00'')) = Fin 10000" by code_simp
  have b3: "processLine (js ''Coffee 10000.00'') = None" by code_simp
  have b4: "processLine (js ''Coffee 9999.99'')
            = Some \<lparr>name = js ''Coffee'', price = fl (999999 / 100)\<rparr>" by code_simp
  have b5: "priceRegex (js ''A 10.00'') = Some (js ''A'', js ''10.00'')" by code_simp
  have b6: "cleanName (js ''A'') = js ''A''" by code_simp
  have b7: "processLine (js ''A 10.00'') = None" by code_simp
  have b8: "processLine (js ''AB 10.00'') = Some \<lparr>name = js ''AB'', price = Fin 10\<rparr>" by code_simp
  have b9: "processLine (js ''Coffee 0.00'') = None" by code_simp
  from g b1 b2 b3 b4 b5 b6 b7 b8 b9 show ?thesis by blast
qed

theorem items_satisfy_sanity_witness:
  "\<lparr>name = js ''Coffee'', price = fl (999999 / 100)\<rparr> \<in> set (extractItems (js ''Coffee 9999.99''))
   \<and> 1 < length (js ''Coffee'') \<and> \<not> isNaN (fl (999999 / 100))
   \<and> num_less (Fin 0) (fl (999999 / 100)) \<and> num_less (fl (999999 / 100)) (Fin 10000)"
proof -
  have a: "\<lparr>name = js ''Coffee'', price = fl (999999 / 100)\<rparr>
           \<in> set (extractItems (js ''Coffee 9999.99''))" by code_simp
  from items_satisfy_sanity [of "\<lparr>name = js ''Coffee'', price = fl (999999 / 100)\<rparr>"
      "js ''Coffee 9999.99''"] a
  show ?thesis by simp
qed

section \<open>Results without items\<close>

lemma processLine_no_match: "priceRegex (trim line) = None \<Longrightarrow> processLine line = None"
  by (simp add: processLine_def Let_def)

lemma pushItems_no_match:
  "\<forall>line\<in>set lines. priceRegex (trim line) = None \<Longrightarrow> pushItems acc lines = acc"
  by (induction lines arbitrary: acc) (auto simp: processLine_no_match)

text \<open>
  Claim C6. Once the text is recognized and the worker terminated, \<open>parseReceiptImage\<close>
  resolves with the items extracted from the text, whatever the text is. When there are
  none (as for a text no line of which matches the pattern, or the empty text), it
  resolves with the empty sequence; the warning on the console, with the first 200
  characters of the text, is the only difference.
\<close>

theorem empty_extraction_resolves:
  assumes "preprocessImage pf = Inr img" "worker_created pf"
    "recognized pf img = Some text" "terminated pf"
  shows "fst (parseReceiptImage pf) = Inr \<lparr>items = extractItems text\<rparr>
         \<and> (extractItems text = [] \<longrightarrow>
              parseReceiptImage pf
              = (Inr \<lparr>items = []\<rparr>,
                 [CreateWorker, Recognize img, Terminate, ConsoleWarn (take 200 text)]))
         \<and> ((\<forall>line\<in>set (split_lines text). priceRegex (trim line) = None) \<longrightarrow>
              extractItems text = [])"
  using assms
  by (auto simp: parseReceiptImage_def Let_def extractItems_def pushItems_no_match)

theorem empty_extraction_resolves_witness:
  "preprocessImage \<lparr>loaded = Some (800, 600), has_context = True, worker_created = True,
       recognized = (\<lambda>_. Some (js ''~~ no prices here ~~\<newline>@@@'')), terminated = True\<rparr>
     = Inr (ProcessedImage 800 600)
   \<and> extractItems (js ''~~ no prices here ~~\<newline>@@@'') = []
   \<and> extractItems [] = []
   \<and> parseReceiptImage \<lparr>loaded = Some (800, 600), has_context = True, worker_created = True,
       recognized = (\<lambda>_. Some (js ''~~ no prices here ~~\<newline>@@@'')), terminated = True\<rparr>
     = (Inr \<lparr>items = []\<rparr>,
        [CreateWorker, Recognize (ProcessedImage 800 600), Terminate,
         ConsoleWarn (take 200 (js ''~~ no prices here ~~\<newline>@@@''))])"
proof -
  let ?text = "js ''~~ no prices here ~~\<newline>@@@''"
  let ?pf = "\<lparr>loaded = Some (800, 600), has_context = True, worker_created = True,
       recognized = (\<lambda>_. Some ?text), terminated = True\<rparr>"
  have a: "preprocessImage ?pf = Inr (ProcessedImage 800 600)" by code_simp
  have b: "worker_created ?pf" by simp
  have c: "recognized ?pf (ProcessedImage 800 600) = Some ?text" by simp
  have d: "terminated ?pf" by simp
  have e: "\<forall>line\<in>set (split_lines ?text). priceRegex (trim line) = None" by code_simp
  have f: "extractItems [] = []" by code_simp
  from empty_extraction_resolves [OF a b c d] e f show ?thesis using a by blast
qed

section \<open>The lines that give an item\<close>

lemma digitsN_split:
  "r \<in> set (digitsN n s) \<Longrightarrow> \<exists>d. s = d @ r \<and> digitString n d"
proof (induction n s rule: digitsN.induct)
  case (1 s)
  then show ?case by (simp add: digitString_def)
next
  case (2 n)
  then show ?case by simp
next
  case (3 n c cs)
  then have c: "isDigit c" and "r \<in> set (digitsN n cs)" by (auto split: if_splits)
  with 3 obtain d where "cs = d @ r" "digitString n d" by blast
  with c have "c # cs = (c # d) @ r \<and> digitString (Suc n) (c # d)"
    by (simp add: digitString_def)
  then show ?case by blast
qed

lemma leadingDigits_split:
  assumes "r \<in> set (leadingDigits s)"
  shows "\<exists>l. s = l @ r \<and> 1 \<le> length l \<and> length l \<le> 3 \<and> list_all isDigit l"
proof -
  from assms obtain n where n: "n \<in> {1, 2, 3}" "r \<in> set (digitsN n s)"
    by (auto simp: leadingDigits_def)
  from digitsN_split [OF n(2)] obtain d where "s = d @ r" "digitString n d" by blast
  with n(1) show ?thesis by (auto simp: digitString_def)
qed

lemma digitGroup_split:
  assumes "r \<in> set (digitGroup s)"
  shows "\<exists>g. s = g @ r \<and> isGroup g"
proof -
  from assms consider
    (sep) c cs where "s = c # cs" "isGroupSep c" "r \<in> set (digitsN 3 cs)"
  | (plain) "r \<in> set (digitsN 3 s)"
    by (auto simp: digitGroup_def split: list.splits if_splits)
  then show ?thesis
  proof cases
    case sep
    from digitsN_split [OF sep(3)] obtain d where "cs = d @ r" "digitString 3 d" by blast
    with sep have "s = (c # d) @ r \<and> isGroup (c # d)" by (simp add: isGroup_def)
    then show ?thesis by blast
  next
    case plain
    from digitsN_split [OF plain] obtain d where "s = d @ r" "digitString 3 d" by blast
    then show ?thesis by (auto simp: isGroup_def)
  qed
qed

lemma digitGroups_split:
  "r \<in> set (digitGroups s) \<Longrightarrow> \<exists>gs. s = concat gs @ r \<and> list_all isGroup gs"
proof (induction s arbitrary: r rule: digitGroups.induct)
  case (1 s)
  have "digitGroups s = concat (map digitGroups (digitGroup s)) @ [s]"
    by (rule digitGroups.simps)
  with "1.prems" have "r \<in> set (concat (map digitGroups (digitGroup s)) @ [s])"
    by simp
  then consider (more) x where "x \<in> set (digitGroup s)" "r \<in> set (digitGroups x)"
    | (stop) "r = s"
    by auto
  then show ?case
  proof cases
    case more
    from "1.IH" [OF more] obtain gs where gs: "x = concat gs @ r" "list_all isGroup gs" by blast
    from digitGroup_split [OF more(1)] obtain g where g: "s = g @ x" "isGroup g" by blast
    from gs g have "s = concat (g # gs) @ r \<and> list_all isGroup (g # gs)" by simp
    then show ?thesis by blast
  next
    case stop
    then have "s = concat [] @ r \<and> list_all isGroup []" by simp
    then show ?thesis by blast
  qed
qed

lemma decimals_split:
  "r \<in> set (decimals s) \<Longrightarrow> \<exists>c d. s = c # d @ r \<and> (c = 46 \<or> c = 44) \<and> digitString 2 d"
  by (auto simp: decimals_def split: list.splits if_splits dest!: digitsN_split)

lemma priceToken_split:
  assumes "r \<in> set (priceToken s)"
  shows "\<exists>t. s = t @ r \<and> priceShape t"
proof -
  from assms obtain r1 r2 where
    r1: "r1 \<in> set (leadingDigits s)" and r2: "r2 \<in> set (digitGroups r1)"
    and r: "r \<in> set (decimals r2)"
    by (auto simp: priceToken_def)
  from leadingDigits_split [OF r1] obtain l where
    l: "s = l @ r1" "1 \<le> length l" "length l \<le> 3" "list_all isDigit l" by blast
  from digitGroups_split [OF r2] obtain gs where
    gs: "r1 = concat gs @ r2" "list_all isGroup gs" by blast
  from decimals_split [OF r] obtain c d where
    cd: "r2 = c # d @ r" "c = 46 \<or> c = 44" "digitString 2 d" by blast
  have "s = (l @ concat gs @ c # d) @ r" using l(1) gs(1) cd(1) by simp
  moreover have "priceShape (l @ concat gs @ c # d)"
    unfolding priceShape_def using l gs cd by blast
  ultimately show ?thesis by blast
qed

lemma spaces1_split:
  "v \<in> set (spaces1 u) \<Longrightarrow> \<exists>ws. u = ws @ v \<and> ws \<noteq> [] \<and> list_all isSpace ws"
proof (induction u)
  case Nil
  then show ?case by simp
next
  case (Cons c cs)
  then have c: "isSpace c" and v: "v \<in> set (spaces1 cs) \<or> v = cs" by (auto split: if_splits)
  from v show ?case
  proof
    assume "v \<in> set (spaces1 cs)"
    with Cons.IH obtain ws where "cs = ws @ v" "list_all isSpace ws" by blast
    with c have "c # cs = (c # ws) @ v \<and> c # ws \<noteq> [] \<and> list_all isSpace (c # ws)" by simp
    then show ?thesis by blast
  next
    assume "v = cs"
    with c have "c # cs = [c] @ v \<and> [c] \<noteq> [] \<and> list_all isSpace [c]" by simp
    then show ?thesis by blast
  qed
qed

lemma afterName_split:
  assumes "afterName u = Some t"
  shows "\<exists>ws r. u = ws @ t @ r \<and> ws \<noteq> [] \<and> list_all isSpace ws \<and> priceShape t
           \<and> list_all isSpace r"
proof -
  let ?ts = "concat (map (\<lambda>v. map (\<lambda>r. take (length v - length r) v)
                                (filter (list_all isSpace) (priceToken v))) (spaces1 u))"
  from assms obtain rest where "?ts = t # rest"
    unfolding afterName_def by (auto split: list.splits)
  then have "t \<in> set ?ts" by (metis list.set_intros(1))
  then obtain v r where v: "v \<in> set (spaces1 u)" and r: "r \<in> set (priceToken v)"
    and sp: "list_all isSpace r" and t: "t = take (length v - length r) v"
    by auto
  from priceToken_split [OF r] obtain t' where t': "v = t' @ r" "priceShape t'" by blast
  with t have "t = t'" by simp
  moreover from spaces1_split [OF v] obtain ws where
    "u = ws @ v" "ws \<noteq> []" "list_all isSpace ws" by blast
  ultimately have "u = ws @ t @ r \<and> ws \<noteq> [] \<and> list_all isSpace ws \<and> priceShape t
           \<and> list_all isSpace r" using t' sp by simp
  then show ?thesis by blast
qed

lemma lazyName_split:
  "lazyName n u = Some (nm, t) \<Longrightarrow>
     \<exists>m ws r. nm = n @ m \<and> u = m @ ws @ t @ r \<and> ws \<noteq> [] \<and> list_all isSpace ws
       \<and> priceShape t \<and> list_all isSpace r"
proof (induction n u rule: lazyName.induct)
  case (1 n u)
  have unfolded: "lazyName n u =
     (case afterName u of
        Some t \<Rightarrow> Some (n, t)
      | None \<Rightarrow>
          (case u of
             [] \<Rightarrow> None
           | c # cs \<Rightarrow> if isLineTerminator c then None else lazyName (n @ [c]) cs))"
    by (rule lazyName.simps)
  show ?case
  proof (cases "afterName u")
    case (Some t')
    with "1.prems" unfolded have "nm = n" "t' = t" by simp_all
    moreover from afterName_split [OF Some] obtain ws r where
      "u = ws @ t' @ r" "ws \<noteq> []" "list_all isSpace ws" "priceShape t'" "list_all isSpace r"
      by blast
    ultimately have "nm = n @ [] \<and> u = [] @ ws @ t @ r \<and> ws \<noteq> [] \<and> list_all isSpace ws
       \<and> priceShape t \<and> list_all isSpace r" by simp
    then show ?thesis by blast
  next
    case None
    with "1.prems" unfolded obtain c cs where u: "u = c # cs" and c: "\<not> isLineTerminator c"
      and rec: "lazyName (n @ [c]) cs = Some (nm, t)"
      by (auto split: list.splits if_splits)
    from "1.IH" [OF None u c rec] obtain m ws r where
      "nm = (n @ [c]) @ m" "cs = m @ ws @ t @ r" "ws \<noteq> []" "list_all isSpace ws"
      "priceShape t" "list_all isSpace r" by blast
    with u have "nm = n @ (c # m) \<and> u = (c # m) @ ws @ t @ r \<and> ws \<noteq> [] \<and> list_all isSpace ws
       \<and> priceShape t \<and> list_all isSpace r" by simp
    then show ?thesis by blast
  qed
qed

lemma priceRegex_split:
  assumes "priceRegex s = Some (nm, t)"
  shows "\<exists>ws r. s = nm @ ws @ t @ r \<and> nm \<noteq> [] \<and> ws \<noteq> [] \<and> list_all isSpace ws
           \<and> priceShape t \<and> list_all isSpace r"
proof -
  from assms obtain c cs where s: "s = c # cs" and rec: "lazyName [c] cs = Some (nm, t)"
    by (auto simp: priceRegex_def split: list.splits if_splits)
  from lazyName_split [OF rec] obtain m ws r where
    "nm = [c] @ m" "cs = m @ ws @ t @ r" "ws \<noteq> []" "list_all isSpace ws"
    "priceShape t" "list_all isSpace r" by blast
  with s have "s = nm @ ws @ t @ r \<and> nm \<noteq> [] \<and> ws \<noteq> [] \<and> list_all isSpace ws
           \<and> priceShape t \<and> list_all isSpace r" by simp
  then show ?thesis by blast
qed

lemma trim_no_trailing_space:
  assumes "trim line = xs @ r" "list_all isSpace r"
  shows "r = []"
proof (rule ccontr)
  assume r: "r \<noteq> []"
  with assms have sp: "isSpace (last (trim line))" by (simp add: list_all_iff)
  from assms(1) r have "trim line \<noteq> []" by simp
  then have ne: "dropWhile isSpace (rev (dropWhile isSpace line)) \<noteq> []"
    by (simp add: trim_def)
  then have "\<not> isSpace (hd (dropWhile isSpace (rev (dropWhile isSpace line))))"
    by (rule hd_dropWhile)
  with ne have "\<not> isSpace (last (trim line))" by (simp add: trim_def last_rev)
  with sp show False by simp
qed

lemma specPriceShape_separator:
  assumes "specPriceShape t"
  shows "\<exists>i. 1 \<le> i \<and> i \<le> 3 \<and> i < length t \<and> isGroupSep (t ! i)"
proof -
  from assms obtain l gs c d where t: "t = l @ concat gs @ c # d"
    and l: "1 \<le> length l" "length l \<le> 3" and gs: "list_all isSeparatedGroup gs"
    and c: "c = 46 \<or> c = 44"
    unfolding specPriceShape_def by blast
  have "\<exists>x rest. concat gs @ c # d = x # rest \<and> isGroupSep x"
  proof (cases gs)
    case Nil
    with c show ?thesis by (auto simp: isGroupSep_def)
  next
    case (Cons g gs')
    with gs obtain x ds where "g = x # ds" "isGroupSep x"
      by (auto simp: isSeparatedGroup_def split: list.splits)
    with Cons show ?thesis by simp
  qed
  then obtain x rest where "concat gs @ c # d = x # rest" "isGroupSep x" by blast
  with t have "t = l @ x # rest" by simp
  then have "length l < length t \<and> t ! length l = x" by simp
  with l \<open>isGroupSep x\<close> show ?thesis by blast
qed

text \<open>
  Claim C3, as stated: a token whose groups of three digits lack the separator would
  not match. It does: the separator of a group is optional in the pattern
  (\<open>[.,\s]?\<close>), so that \<open>Coffee 1234.56\<close> gives an item, although \<open>1234.56\<close> has not the
  shape of the specification.
\<close>

theorem price_token_without_group_separator_counterexample:
  "priceRegex (js ''Coffee 1234.56'') = Some (js ''Coffee'', js ''1234.56'')
   \<and> processLine (js ''Coffee 1234.56'')
       = Some \<lparr>name = js ''Coffee'', price = fl (123456 / 100)\<rparr>
   \<and> \<not> specPriceShape (js ''1234.56'')"
proof -
  have a: "priceRegex (js ''Coffee 1234.56'') = Some (js ''Coffee'', js ''1234.56'')"
    by code_simp
  have b: "processLine (js ''Coffee 1234.56'')
           = Some \<lparr>name = js ''Coffee'', price = fl (123456 / 100)\<rparr>" by code_simp
  have t: "js ''1234.56'' = [49, 50, 51, 52, 46, 53, 54]" by (simp add: js_def)
  have c: "\<not> specPriceShape (js ''1234.56'')"
  proof
    assume "specPriceShape (js ''1234.56'')"
    from specPriceShape_separator [OF this] obtain i where
      i: "1 \<le> i" "i \<le> 3" "isGroupSep (js ''1234.56'' ! i)" by blast
    from i(1,2) have "i = 1 \<or> i = 2 \<or> i = 3" by arith
    with i(3) show False by (auto simp: t isGroupSep_def isSpace_def)
  qed
  from a b c show ?thesis by blast
qed

text \<open>
  Claim C3, as amended: a line gives an item only if, once trimmed, it is a non-empty
  name, some white space and, up to its end, a token of this shape: one to three digits,
  any number of groups of three digits, each with or without a separator (dot, comma or
  a white space character) before it, and a dot or a comma followed by two digits. A
  token with one or three decimals, or without decimals, or without white space before
  it, does not match.
\<close>

theorem item_only_from_price_shaped_line:
  "(processLine line = Some it \<longrightarrow>
      (\<exists>nm ws tok. trim line = nm @ ws @ tok \<and> nm \<noteq> [] \<and> ws \<noteq> [] \<and> list_all isSpace ws
          \<and> priceShape tok))
   \<and> priceRegex (js ''Coffee 10.5'') = None
   \<and> priceRegex (js ''Coffee 10.505'') = None
   \<and> priceRegex (js ''Coffee 1050'') = None
   \<and> priceRegex (js ''Coffee10.00'') = None"
proof -
  have g: "\<exists>nm ws tok. trim line = nm @ ws @ tok \<and> nm \<noteq> [] \<and> ws \<noteq> [] \<and> list_all isSpace ws
             \<and> priceShape tok" if "processLine line = Some it"
  proof -
    from that obtain nm t where "priceRegex (trim line) = Some (nm, t)"
      by (auto simp: processLine_def Let_def split: if_splits option.splits)
    from priceRegex_split [OF this] obtain ws r where
      s: "trim line = nm @ ws @ t @ r"
      and p: "nm \<noteq> []" "ws \<noteq> []" "list_all isSpace ws" "priceShape t"
      and r: "list_all isSpace r" by blast
    from s have "trim line = (nm @ ws @ t) @ r" by simp
    from trim_no_trailing_space [OF this r] s p show ?thesis by auto
  qed
  have e1: "priceRegex (js ''Coffee 10.5'') = None" by code_simp
  have e2: "priceRegex (js ''Coffee 10.505'') = None" by code_simp
  have e3: "priceRegex (js ''Coffee 1050'') = None" by code_simp
  have e4: "priceRegex (js ''Coffee10.00'') = None" by code_simp
  from g e1 e2 e3 e4 show ?thesis by blast
qed

theorem item_only_from_price_shaped_line_witness:
  "processLine (js ''Coffee 1 234,56'')
     = Some \<lparr>name = js ''Coffee'', price = fl (123456 / 100)\<rparr>
   \<and> (\<exists>nm ws tok. trim (js ''Coffee 1 234,56'') = nm @ ws @ tok \<and> nm \<noteq> [] \<and> ws \<noteq> []
         \<and> list_all isSpace ws \<and> priceShape tok)"
proof -
  have a: "processLine (js ''Coffee 1 234,56'')
           = Some \<lparr>name = js ''Coffee'', price = fl (123456 / 100)\<rparr>" by code_simp
  from item_only_from_price_shaped_line
    [of "js ''Coffee 1 234,56''" "\<lparr>name = js ''Coffee'', price = fl (123456 / 100)\<rparr>"] a
  show ?thesis by blast
qed

section \<open>Properties of the image normalizer\<close>

lemma round_half_even_bounds:
  assumes q: "0 < q" and lo: "a * q \<le> p" and hi: "p \<le> b * q"
  shows "a \<le> round_half_even p q \<and> round_half_even p q \<le> b"
proof -
  have "a * q div q \<le> p div q" using lo q by (rule zdiv_mono1)
  with q have d_lo: "a \<le> p div q" by simp
  have "p div q \<le> b * q div q" using hi q by (rule zdiv_mono1)
  with q have d_hi: "p div q \<le> b" by simp
  have up: "p div q < b" if "0 < p mod q"
  proof (rule ccontr)
    assume "\<not> p div q < b"
    with d_hi have "p div q = b" by simp
    then have "p = b * q + p mod q" by (metis mult.commute mult_div_mod_eq)
    with that hi show False by simp
  qed
  show ?thesis
    using d_lo d_hi up q by (auto simp: round_half_even_def Let_def)
qed

lemma round_half_even_near:
  assumes q: "0 < q"
  shows "\<bar>of_int (round_half_even p q) - (of_int p / of_int q :: rat)\<bar> \<le> 1 / 2"
proof -
  define d where "d = p div q"
  define r where "r = p mod q"
  define f :: rat where "f = of_int r / of_int q"
  have p: "p = d * q + r" by (simp add: d_def r_def)
  have r: "0 \<le> r" "r < q" using q by (simp_all add: r_def)
  have qpos: "(0::rat) < of_int q" using q by simp
  have frac: "(of_int p / of_int q :: rat) = of_int d + f"
  proof -
    have "(of_int p :: rat) = of_int d * of_int q + of_int r"
      by (metis p of_int_add of_int_mult)
    with q show ?thesis by (simp add: f_def field_simps)
  qed
  have f0: "0 \<le> f" "f < 1" using r qpos by (simp_all add: f_def)
  consider "2 * r < q" | "q < 2 * r" | "2 * r = q" by linarith
  then show ?thesis
  proof cases
    case 1
    then have v: "round_half_even p q = d" by (simp add: round_half_even_def Let_def d_def r_def)
    from 1 have "(of_int (2 * r) :: rat) < of_int q" by (simp only: of_int_less_iff)
    with qpos have "f < 1 / 2" by (simp add: f_def field_simps)
    with f0 show ?thesis unfolding v frac by simp
  next
    case 2
    then have v: "round_half_even p q = d + 1" by (simp add: round_half_even_def Let_def d_def r_def)
    from 2 have "(of_int q :: rat) < of_int (2 * r)" by (simp only: of_int_less_iff)
    with qpos have "1 / 2 < f" by (simp add: f_def field_simps)
    with f0 show ?thesis unfolding v frac by simp
  next
    case 3
    then have "(of_int (2 * r) :: rat) = of_int q" by simp
    with qpos have h: "f = 1 / 2" by (simp add: f_def field_simps)
    from 3 have "round_half_even p q = d \<or> round_half_even p q = d + 1"
      by (simp add: round_half_even_def Let_def d_def r_def)
    then show ?thesis unfolding frac h by auto
  qed
qed

lemma pow2_powi: "pow2 e = 2 powi e"
  by (simp add: power_int_def power_one_over inverse_eq_divide)

lemma log2floor_bounds:
  "0 < n \<Longrightarrow> 0 \<le> log2floor n \<and> 2 ^ nat (log2floor n) \<le> n \<and> n < 2 * 2 ^ nat (log2floor n)"
proof (induction n rule: log2floor.induct)
  case (1 n)
  have unfolded: "log2floor n = (if n < 2 then 0 else log2floor (n div 2) + 1)"
    by (rule log2floor.simps)
  show ?case
  proof (cases "n < 2")
    case True
    with "1.prems" unfolded show ?thesis by simp
  next
    case False
    then have "0 < n div 2" by simp
    from "1.IH" [OF False this] have ih: "0 \<le> log2floor (n div 2)"
      "2 ^ nat (log2floor (n div 2)) \<le> n div 2" "n div 2 < 2 * 2 ^ nat (log2floor (n div 2))"
      by simp_all
    from False unfolded have l: "log2floor n = log2floor (n div 2) + 1" by simp
    with ih(1) have n: "nat (log2floor n) = Suc (nat (log2floor (n div 2)))" by simp
    from ih l show ?thesis unfolding n by simp linarith
  qed
qed

lemma binade_le:
  assumes p: "0 < p" and q: "0 < q"
  shows "2 powi (binade p q) \<le> (of_int p / of_int q :: rat)"
proof -
  define a where "a = log2floor p"
  define b where "b = log2floor q"
  define e where "e = a - b"
  from log2floor_bounds [OF p] have a: "0 \<le> a" "2 ^ nat a \<le> p" by (simp_all add: a_def)
  from log2floor_bounds [OF q] have b: "0 \<le> b" "q < 2 * 2 ^ nat b" by (simp_all add: b_def)
  have qr: "(0::rat) < of_int q" using q by simp
  have pr: "(0::rat) < of_int p" using p by simp
  have bd: "binade p q
      = (if (if 0 \<le> e then q * 2 ^ nat e \<le> p else q \<le> p * 2 ^ nat (- e)) then e else e - 1)"
    unfolding binade_def Let_def e_def a_def b_def by (rule refl)
  show ?thesis
  proof (cases "if 0 \<le> e then q * 2 ^ nat e \<le> p else q \<le> p * 2 ^ nat (- e)")
    case True
    then have bin: "binade p q = e" unfolding bd by (rule if_P)
    show ?thesis
    proof (cases "0 \<le> e")
      case nonneg: True
      with True have "q * 2 ^ nat e \<le> p" by simp
      then have "(of_int (q * 2 ^ nat e) :: rat) \<le> of_int p" by (simp only: of_int_le_iff)
      then have "(2 ^ nat e :: rat) \<le> of_int p / of_int q" using qr by (simp add: field_simps)
      with nonneg show ?thesis unfolding bin by (simp add: power_int_def)
    next
      case neg: False
      with True have "q \<le> p * 2 ^ nat (- e)" by simp
      then have "(of_int q :: rat) \<le> of_int (p * 2 ^ nat (- e))" by (simp only: of_int_le_iff)
      then have "(1 / 2 ^ nat (- e) :: rat) \<le> of_int p / of_int q"
        using qr by (simp add: field_simps)
      with neg show ?thesis unfolding bin by (simp add: power_int_def power_one_over inverse_eq_divide)
    qed
  next
    case False
    then have bin: "binade p q = e - 1" unfolding bd by (rule if_not_P)
    have eq: "e - 1 = a - (b + 1)" by (simp add: e_def)
    have "(2::rat) powi (e - 1) = 2 powi a / 2 powi (b + 1)"
      unfolding eq by (rule power_int_diff) simp
    also have "\<dots> = 2 ^ nat a / (2 * 2 ^ nat b)"
      using a(1) b(1) by (simp add: power_int_def nat_add_distrib)
    also have "\<dots> \<le> of_int p / of_int q"
    proof -
      have "(of_int (2 ^ nat a) :: rat) \<le> of_int p" using a(2) by (simp only: of_int_le_iff)
      then have 1: "(2 ^ nat a :: rat) \<le> of_int p" by simp
      have "(of_int q :: rat) < of_int (2 * 2 ^ nat b)" using b(2) by (simp only: of_int_less_iff)
      then have 2: "(of_int q :: rat) \<le> 2 * 2 ^ nat b" by simp
      from 1 2 qr pr show ?thesis by (intro frac_le) simp_all
    qed
    finally show ?thesis unfolding bin .
  qed
qed

lemma binade_less:
  assumes "0 < p" "0 < q" "(of_int p / of_int q :: rat) < 2 powi b"
  shows "binade p q < b"
proof (rule ccontr)
  assume "\<not> binade p q < b"
  then have "(2::rat) powi b \<le> 2 powi (binade p q)" by (intro power_int_increasing) simp_all
  with binade_le [OF assms(1,2)] assms(3) show False by simp
qed

lemma round_half_even_one: "round_half_even n 1 = n"
  by (simp add: round_half_even_def)

lemma quotient_of_pos:
  assumes "0 < x" "quotient_of x = (p, q)"
  shows "0 < p \<and> 0 < q \<and> x = of_int p / of_int q"
proof -
  from assms(2) have q: "0 < q" and x: "x = of_int p / of_int q"
    by (simp_all add: quotient_of_denom_pos quotient_of_div)
  from assms(1) x q have "(0::rat) < of_int p" by (simp add: zero_less_divide_iff)
  with q x show ?thesis by simp
qed

text \<open>The result of the rounding is at most half a step away.\<close>

lemma round_binary64_near:
  assumes p: "0 < p" and q: "0 < q" and less: "(of_int p / of_int q :: rat) < 2 powi b"
    and b: "- 1021 \<le> b" and r: "round_binary64 p q = (m, k)"
  shows "\<bar>of_int m * pow2 k - (of_int p / of_int q :: rat)\<bar> \<le> 2 powi (b - 54)"
proof -
  from r p have k: "k = max (binade p q) (- 1022) - 52"
    by (auto simp: round_binary64_def Let_def split: if_splits)
  from binade_less [OF p q less] b k have kb: "k \<le> b - 53" by simp
  have qr: "(0::rat) < of_int q" using q by simp
  have step: "\<bar>of_int m * pow2 k - (of_int p / of_int q :: rat)\<bar> \<le> 2 powi k / 2"
  proof (cases "0 \<le> k")
    case True
    define s :: int where "s = 2 ^ nat k"
    have s: "0 < s" by (simp add: s_def)
    from r p k True have m: "m = round_half_even p (q * s)"
      by (auto simp: round_binary64_def Let_def s_def split: if_splits)
    have pw: "pow2 k = of_int s" using True by (simp add: s_def)
    have pwi: "(2::rat) powi k = of_int s" using True by (simp add: power_int_def s_def)
    from q s have "0 < q * s" by simp
    from round_half_even_near [OF this, of p] m
    have "\<bar>of_int m - (of_int p / (of_int q * of_int s) :: rat)\<bar> \<le> 1 / 2" by simp
    then have "\<bar>of_int m - (of_int p / (of_int q * of_int s) :: rat)\<bar> * of_int s \<le> 1 / 2 * of_int s"
      using s by (intro mult_right_mono) simp_all
    moreover have "\<bar>of_int m - (of_int p / (of_int q * of_int s) :: rat)\<bar> * of_int s
        = \<bar>of_int m * of_int s - (of_int p / of_int q :: rat)\<bar>"
    proof -
      have "\<bar>of_int m - (of_int p / (of_int q * of_int s) :: rat)\<bar> * of_int s
            = \<bar>(of_int m - (of_int p / (of_int q * of_int s) :: rat)) * of_int s\<bar>"
        using s by (simp add: abs_mult)
      also have "(of_int m - (of_int p / (of_int q * of_int s) :: rat)) * of_int s
            = of_int m * of_int s - (of_int p / of_int q :: rat)"
        using s qr by (simp add: field_simps)
      finally show ?thesis .
    qed
    ultimately show ?thesis unfolding pw pwi by simp
  next
    case False
    define s :: int where "s = 2 ^ nat (- k)"
    have s: "0 < s" by (simp add: s_def)
    from r p k False have m: "m = round_half_even (p * s) q"
      by (auto simp: round_binary64_def Let_def s_def split: if_splits)
    have pw: "pow2 k = 1 / of_int s" using False by (simp add: s_def)
    have pwi: "(2::rat) powi k = 1 / of_int s"
      using False by (simp add: power_int_def s_def power_one_over inverse_eq_divide)
    from round_half_even_near [OF q, of "p * s"] m
    have "\<bar>of_int m - (of_int p * of_int s / of_int q :: rat)\<bar> \<le> 1 / 2" by simp
    then have "\<bar>of_int m - (of_int p * of_int s / of_int q :: rat)\<bar> / of_int s \<le> 1 / 2 / of_int s"
      using s by (intro divide_right_mono) simp_all
    moreover have "\<bar>of_int m - (of_int p * of_int s / of_int q :: rat)\<bar> / of_int s
        = \<bar>of_int m * (1 / of_int s) - (of_int p / of_int q :: rat)\<bar>"
    proof -
      have "\<bar>of_int m - (of_int p * of_int s / of_int q :: rat)\<bar> / of_int s
            = \<bar>(of_int m - (of_int p * of_int s / of_int q :: rat)) / of_int s\<bar>"
        using s by simp
      also have "(of_int m - (of_int p * of_int s / of_int q :: rat)) / of_int s
            = of_int m * (1 / of_int s) - (of_int p / of_int q :: rat)"
        using s qr by (simp add: field_simps)
      finally show ?thesis .
    qed
    ultimately show ?thesis unfolding pw pwi by simp
  qed
  have "(2::rat) powi k / 2 = 2 powi (k - 1)" by (simp add: power_int_diff)
  also have "\<dots> \<le> 2 powi (b - 54)" using kb by (intro power_int_increasing) simp_all
  finally show ?thesis using step by simp
qed

lemma binary64_near:
  assumes "0 \<le> x" "x < 2 powi b" "- 1021 \<le> b"
  shows "\<bar>binary64 x - x\<bar> \<le> 2 powi (b - 54)"
proof (cases "x = 0")
  case True
  have "quotient_of (0::rat) = (0, 1)" by simp
  with True show ?thesis by (simp add: binary64_def round_binary64_def)
next
  case False
  with assms(1) have pos: "0 < x" by simp
  obtain p q where pq: "quotient_of x = (p, q)" by (cases "quotient_of x")
  obtain m k where mk: "round_binary64 p q = (m, k)" by (cases "round_binary64 p q")
  from quotient_of_pos [OF pos pq] have p: "0 < p" and q: "0 < q" and x: "x = of_int p / of_int q"
    by simp_all
  from assms(2) x have "(of_int p / of_int q :: rat) < 2 powi b" by simp
  from round_binary64_near [OF p q this assms(3) mk]
  have "\<bar>of_int m * pow2 k - x\<bar> \<le> 2 powi (b - 54)" using x by simp
  moreover have "binary64 x = of_int m * pow2 k"
    using pos pq mk by (simp add: binary64_def Let_def)
  ultimately show ?thesis by simp
qed

text \<open>A non-negative integer below \<open>2 ^ 53\<close> is a binary64 value.\<close>

lemma binary64_of_int:
  assumes "0 \<le> n" "n < 2 ^ 53"
  shows "binary64 (of_int n) = of_int n"
proof (cases "n = 0")
  case True
  then show ?thesis by (simp add: binary64_def round_binary64_def)
next
  case False
  with assms(1) have n: "0 < n" by simp
  have qo: "quotient_of (of_int n :: rat) = (n, 1)" by simp
  obtain m k where mk: "round_binary64 n 1 = (m, k)" by (cases "round_binary64 n 1")
  have "(of_int n / of_int 1 :: rat) < 2 powi 53"
  proof -
    have "(of_int n :: rat) < of_int (2 ^ 53)" using assms(2) by (simp only: of_int_less_iff)
    then show ?thesis by simp
  qed
  from binade_less [OF n _ this] have "binade n 1 < 53" by simp
  with mk n have k: "k = max (binade n 1) (- 1022) - 52" "k \<le> 0"
    by (auto simp: round_binary64_def Let_def split: if_splits)
  have "of_int m * pow2 k = (of_int n :: rat)"
  proof (cases "k = 0")
    case True
    with mk n k(1) have "m = n"
      by (auto simp: round_binary64_def Let_def round_half_even_one split: if_splits)
    with True show ?thesis by simp
  next
    case False
    with k(2) have neg: "k < 0" by simp
    with mk n k(1) have "m = n * 2 ^ nat (- k)"
      by (auto simp: round_binary64_def Let_def round_half_even_one split: if_splits)
    with neg show ?thesis by simp
  qed
  moreover have "binary64 (of_int n) = of_int m * pow2 k"
    using n qo mk by (simp add: binary64_def Let_def)
  ultimately show ?thesis by simp
qed

lemma mathRound_near: "\<bar>of_int (mathRound x) - x\<bar> \<le> 1 / 2"
  unfolding mathRound_def by linarith

text \<open>
  The height of the canvas of a wide image, for image sizes below \<open>2 ^ 32\<close> (the width
  and the height of an image are unsigned 32-bit integers): within a half, and the
  rounding error of the binary64 quotient, of \<open>height * 1500 / width\<close>.
\<close>

lemma canvasSize_height:
  assumes w: "1500 < width" and h: "0 \<le> height" "height < 2 ^ 32"
  shows "\<bar>of_int (snd (canvasSize width height)) - (of_int height * 1500 / of_int width :: rat)\<bar>
         \<le> 1 / 2 + 1 / 2 ^ 22"
proof -
  define x :: rat where "x = of_int height * 1500 / of_int width"
  have wr: "(1500::rat) < of_int width" using w by simp
  have hr: "(0::rat) \<le> of_int height" "(of_int height :: rat) < 2 ^ 32"
  proof -
    show "(0::rat) \<le> of_int height" using h(1) by simp
    have "(of_int height :: rat) < of_int (2 ^ 32)" using h(2) by (simp only: of_int_less_iff)
    then show "(of_int height :: rat) < 2 ^ 32" by simp
  qed
  have prod: "binary64 (of_int height * of_int MAX_WIDTH) = of_int height * 1500"
  proof -
    have "0 \<le> height * 1500" "height * 1500 < 2 ^ 53" using h by simp_all
    from binary64_of_int [OF this] show ?thesis by (simp add: MAX_WIDTH_def)
  qed
  have x0: "0 \<le> x" using hr wr by (simp add: x_def)
  have "x \<le> of_int height"
  proof -
    have "of_int height * 1500 \<le> of_int height * (of_int width :: rat)"
      using hr(1) wr by (intro mult_left_mono) simp_all
    with wr show ?thesis by (simp add: x_def field_simps)
  qed
  with hr(2) have "x < 2 powi 32" by simp
  from binary64_near [OF x0 this] have near: "\<bar>binary64 x - x\<bar> \<le> 1 / 2 ^ 22"
    by (simp add: power_int_def power_one_over inverse_eq_divide)
  have "snd (canvasSize width height) = mathRound (binary64 x)"
    using w prod by (simp add: canvasSize_def MAX_WIDTH_def x_def)
  with mathRound_near [of "binary64 x"] near show ?thesis unfolding x_def [symmetric] by linarith
qed

lemma binary64_nonneg:
  assumes "0 \<le> x"
  shows "0 \<le> binary64 x"
proof (cases "x = 0")
  case True
  then show ?thesis by (simp add: binary64_def round_binary64_def)
next
  case False
  with assms have pos: "0 < x" by simp
  obtain p q where pq: "quotient_of x = (p, q)" by (cases "quotient_of x")
  obtain m k where mk: "round_binary64 p q = (m, k)" by (cases "round_binary64 p q")
  from quotient_of_pos [OF pos pq] have p: "0 < p" and q: "0 < q" by simp_all
  have "0 \<le> m"
  proof (cases "0 \<le> k")
    case True
    define s :: int where "s = 2 ^ nat k"
    have s: "0 < s" by (simp add: s_def)
    from mk p True have m: "m = round_half_even p (q * s)"
      by (auto simp: round_binary64_def Let_def s_def split: if_splits)
    from q s have d: "0 < q * s" by simp
    then have "1 \<le> q * s" by simp
    with p have "p * 1 \<le> p * (q * s)" by (intro mult_left_mono) simp_all
    then have hi: "p \<le> p * (q * s)" by simp
    from p have lo: "0 * (q * s) \<le> p" by simp
    from round_half_even_bounds [OF d lo hi] m show ?thesis by simp
  next
    case False
    define s :: int where "s = 2 ^ nat (- k)"
    have s: "0 < s" by (simp add: s_def)
    from mk p False have m: "m = round_half_even (p * s) q"
      by (auto simp: round_binary64_def Let_def s_def split: if_splits)
    from p s have ps: "0 < p * s" by simp
    from q have "1 \<le> q" by simp
    with ps have "p * s * 1 \<le> p * s * q" by (intro mult_left_mono) simp_all
    then have hi: "p * s \<le> p * s * q" by simp
    from ps have lo: "0 * q \<le> p * s" by simp
    from round_half_even_bounds [OF q lo hi] m show ?thesis by simp
  qed
  moreover have "(0::rat) < pow2 k" by simp
  moreover have "binary64 x = of_int m * pow2 k"
    using pos pq mk by (simp add: binary64_def Let_def)
  ultimately show ?thesis by simp
qed

lemma binary64_near':
  assumes "0 \<le> x" "x < 2 ^ n"
  shows "\<bar>binary64 x - x\<bar> \<le> 2 ^ n / 2 ^ 54"
proof -
  from assms(2) have "x < 2 powi (int n)" by simp
  from binary64_near [OF assms(1) this] have "\<bar>binary64 x - x\<bar> \<le> 2 powi (int n - 54)" by simp
  also have "(2::rat) powi (int n - 54) = 2 powi (int n) / 2 powi 54"
    by (rule power_int_diff) simp
  finally show ?thesis by simp
qed

lemma luminosity_near:
  assumes "0 \<le> r" "r \<le> 255" "0 \<le> g" "g \<le> 255" "0 \<le> b" "b \<le> 255"
  shows "\<bar>luminosity r g b - specLuminance r g b\<bar> \<le> 1 / 2 ^ 43"
proof -
  define R :: rat where "R = of_int r"
  define G :: rat where "G = of_int g"
  define B :: rat where "B = of_int b"
  have R: "0 \<le> R" "R \<le> 255" using assms by (simp_all add: R_def)
  have G: "0 \<le> G" "G \<le> 255" using assms by (simp_all add: G_def)
  have B: "0 \<le> B" "B \<le> 255" using assms by (simp_all add: B_def)
  have c1: "binary64 (2126 / 10000) = 1914930561557935 / 9007199254740992" by code_simp
  have c2: "binary64 (7152 / 10000) = 6441948906990757 / 9007199254740992" by code_simp
  have c3: "binary64 (722 / 10000) = 5202558289538397 / 72057594037927936" by code_simp
  define x1 :: rat where "x1 = 1914930561557935 / 9007199254740992 * R"
  define x2 :: rat where "x2 = 6441948906990757 / 9007199254740992 * G"
  define x3 :: rat where "x3 = 5202558289538397 / 72057594037927936 * B"
  define p1 where "p1 = binary64 x1"
  define p2 where "p2 = binary64 x2"
  define p3 where "p3 = binary64 x3"
  define s1 where "s1 = binary64 (p1 + p2)"
  define s2 where "s2 = binary64 (s1 + p3)"
  have lum: "luminosity r g b = s2"
    unfolding luminosity_def c1 c2 c3 s2_def s1_def p1_def p2_def p3_def x1_def x2_def x3_def
      R_def G_def B_def by (rule refl)
  have spec: "specLuminance r g b = 2126 / 10000 * R + 7152 / 10000 * G + 722 / 10000 * B"
    by (simp add: specLuminance_def R_def G_def B_def)
  have x1: "0 \<le> x1" "x1 < 2 ^ 6" using R by (simp_all add: x1_def)
  have x2: "0 \<le> x2" "x2 < 2 ^ 8" using G by (simp_all add: x2_def)
  have x3: "0 \<le> x3" "x3 < 2 ^ 5" using B by (simp_all add: x3_def)
  have "\<bar>p1 - x1\<bar> \<le> 2 ^ 6 / 2 ^ 54" unfolding p1_def using x1 by (rule binary64_near')
  then have e1: "\<bar>p1 - x1\<bar> \<le> 1 / 281474976710656" by simp
  have "\<bar>p2 - x2\<bar> \<le> 2 ^ 8 / 2 ^ 54" unfolding p2_def using x2 by (rule binary64_near')
  then have e2: "\<bar>p2 - x2\<bar> \<le> 1 / 70368744177664" by simp
  have "\<bar>p3 - x3\<bar> \<le> 2 ^ 5 / 2 ^ 54" unfolding p3_def using x3 by (rule binary64_near')
  then have e3: "\<bar>p3 - x3\<bar> \<le> 1 / 562949953421312" by simp
  have n1: "0 \<le> p1" unfolding p1_def using x1(1) by (rule binary64_nonneg)
  have n2: "0 \<le> p2" unfolding p2_def using x2(1) by (rule binary64_nonneg)
  have n3: "0 \<le> p3" unfolding p3_def using x3(1) by (rule binary64_nonneg)
  have d1: "\<bar>x1 - 2126 / 10000 * R\<bar> \<le> 1 / 70368744177664"
    using R unfolding x1_def by linarith
  have d2: "\<bar>x2 - 7152 / 10000 * G\<bar> \<le> 1 / 70368744177664"
    using G unfolding x2_def by linarith
  have d3: "\<bar>x3 - 722 / 10000 * B\<bar> \<le> 1 / 70368744177664"
    using B unfolding x3_def by linarith
  have sum1: "0 \<le> p1 + p2" "p1 + p2 < 256"
    using n1 n2 e1 e2 d1 d2 R G by linarith+
  then have "p1 + p2 < 2 ^ 8" by simp
  with sum1(1) have "\<bar>s1 - (p1 + p2)\<bar> \<le> 2 ^ 8 / 2 ^ 54" unfolding s1_def by (rule binary64_near')
  then have f1: "\<bar>s1 - (p1 + p2)\<bar> \<le> 1 / 70368744177664" by simp
  have m1: "0 \<le> s1" unfolding s1_def using sum1(1) by (rule binary64_nonneg)
  have sum2: "0 \<le> s1 + p3" "s1 + p3 < 512"
    using m1 n3 f1 e1 e2 e3 d1 d2 d3 R G B by linarith+
  then have "s1 + p3 < 2 ^ 9" by simp
  with sum2(1) have "\<bar>s2 - (s1 + p3)\<bar> \<le> 2 ^ 9 / 2 ^ 54" unfolding s2_def by (rule binary64_near')
  then have f2: "\<bar>s2 - (s1 + p3)\<bar> \<le> 1 / 35184372088832" by simp
  have "\<bar>s2 - (2126 / 10000 * R + 7152 / 10000 * G + 722 / 10000 * B)\<bar> \<le> 1 / 8796093022208"
    using e1 e2 e3 d1 d2 d3 f1 f2 by linarith
  then show ?thesis unfolding lum spec by simp
qed

text \<open>
  The weighted sum is a multiple of 1/10000: one that is not 80 or 120 is away from
  them by more than the rounding error.
\<close>

lemma specLuminance_grid:
  "specLuminance r g b = of_int (2126 * r + 7152 * g + 722 * b) / 10000"
  by (simp add: specLuminance_def field_simps)

lemma specLuminance_above:
  assumes "of_int t < specLuminance r g b"
  shows "of_int t + 1 / 10000 \<le> specLuminance r g b"
proof -
  define n where "n = 2126 * r + 7152 * g + 722 * b"
  have s: "specLuminance r g b = of_int n / 10000" by (simp add: specLuminance_grid n_def)
  from assms have "(of_int (10000 * t) :: rat) < of_int n" unfolding s by (simp add: field_simps)
  then have "10000 * t < n" by (simp only: of_int_less_iff)
  then have "10000 * t + 1 \<le> n" by simp
  then have "(of_int (10000 * t + 1) :: rat) \<le> of_int n" by (simp only: of_int_le_iff)
  then show ?thesis unfolding s by (simp add: field_simps)
qed

lemma specLuminance_below:
  assumes "specLuminance r g b < of_int t"
  shows "specLuminance r g b \<le> of_int t - 1 / 10000"
proof -
  define n where "n = 2126 * r + 7152 * g + 722 * b"
  have s: "specLuminance r g b = of_int n / 10000" by (simp add: specLuminance_grid n_def)
  from assms have "(of_int n :: rat) < of_int (10000 * t)" unfolding s by (simp add: field_simps)
  then have "n < 10000 * t" by (simp only: of_int_less_iff)
  then have "n \<le> 10000 * t - 1" by simp
  then have "(of_int n :: rat) \<le> of_int (10000 * t - 1)" by (simp only: of_int_le_iff)
  then show ?thesis unfolding s by (simp add: field_simps)
qed

lemma luminosity_thresholds:
  assumes "0 \<le> r" "r \<le> 255" "0 \<le> g" "g \<le> 255" "0 \<le> b" "b \<le> 255"
  shows "(120 < specLuminance r g b \<longrightarrow> 120 < luminosity r g b)
         \<and> (specLuminance r g b < 80 \<longrightarrow> luminosity r g b < 80)
         \<and> (80 < specLuminance r g b \<and> specLuminance r g b < 120 \<longrightarrow>
              80 < luminosity r g b \<and> luminosity r g b < 120)"
proof -
  from luminosity_near [OF assms]
  have near: "\<bar>luminosity r g b - specLuminance r g b\<bar> \<le> 1 / 8796093022208" by simp
  have a120: "120 + 1 / 10000 \<le> specLuminance r g b" if "120 < specLuminance r g b"
    using specLuminance_above [of 120 r g b] that by simp
  have a80: "80 + 1 / 10000 \<le> specLuminance r g b" if "80 < specLuminance r g b"
    using specLuminance_above [of 80 r g b] that by simp
  have b120: "specLuminance r g b \<le> 120 - 1 / 10000" if "specLuminance r g b < 120"
    using specLuminance_below [of r g b 120] that by simp
  have b80: "specLuminance r g b \<le> 80 - 1 / 10000" if "specLuminance r g b < 80"
    using specLuminance_below [of r g b 80] that by simp
  have 1: "120 < luminosity r g b" if "120 < specLuminance r g b"
    using a120 [OF that] near by linarith
  have 2: "luminosity r g b < 80" if "specLuminance r g b < 80"
    using b80 [OF that] near by linarith
  have 3: "80 < luminosity r g b \<and> luminosity r g b < 120"
    if "80 < specLuminance r g b \<and> specLuminance r g b < 120"
    using a80 b120 that near by linarith
  from 1 2 3 show ?thesis by blast
qed

lemma toUint8Clamp_midtone:
  assumes "80 \<le> x" "x \<le> 120"
  shows "80 \<le> toUint8Clamp x \<and> toUint8Clamp x \<le> 120 \<and> \<bar>of_int (toUint8Clamp x) - x\<bar> \<le> 1 / 2"
proof -
  obtain p q where pq: "quotient_of x = (p, q)" by (cases "quotient_of x")
  then have q: "0 < q" and x: "x = of_int p / of_int q"
    by (simp_all add: quotient_of_denom_pos quotient_of_div)
  from assms x q have "(of_int (80 * q) :: rat) \<le> of_int p" "(of_int p :: rat) \<le> of_int (120 * q)"
    by (simp_all add: field_simps)
  then have "80 * q \<le> p" "p \<le> 120 * q" by (simp_all only: of_int_le_iff)
  from round_half_even_bounds [OF q this] round_half_even_near [OF q, of p] assms pq x
  show ?thesis by (simp add: toUint8Clamp_def)
qed

lemma canvasSize_width: "fst (canvasSize width height) \<le> 1500"
  by (simp add: canvasSize_def MAX_WIDTH_def)

text \<open>
  Claim C8, as stated: a pixel whose luminance \<open>0.2126 R + 0.7152 G + 0.0722 B\<close> is in
  the band from 80 to 120 would be left unchanged. The gray pixel (80, 80, 80) has the
  luminance 80, and becomes black: binary64 arithmetic computes 79.99999999999999 for
  it, which is below 80.
\<close>

theorem midtone_band_counterexample:
  "specLuminance 80 80 80 = 80
   \<and> toUint8Clamp (contrast (specLuminance 80 80 80)) = 80
   \<and> luminosity 80 80 80 < 80
   \<and> contrastFilter [80, 80, 80, 255] = [0, 0, 0, 255]"
  by code_simp

text \<open>
  Claim C8, as amended. The canvas is at most 1500 pixels wide: an image that is not
  wider keeps its size, a wider one gets the width 1500 and the height
  \<open>Math.round(height * 1500 / width)\<close>, which is within a half (and the rounding error of
  the binary64 quotient) of the proportional height (4000 by 3000 becomes 1500 by 1125).
  For each pixel, \<open>gray\<close> is the luminosity \<open>0.2126 * r + 0.7152 * g + 0.0722 * b\<close> as
  binary64 arithmetic computes it, which is within \<open>2 ^ -43\<close> of the weighted sum
  itself; above 120 it becomes 255, below 80 it becomes 0, and from 80 to 120 it is left
  as it is. So a pixel whose weighted sum is above 120 becomes white, one whose weighted
  sum is below 80 becomes black, and one whose weighted sum is strictly between 80 and
  120 keeps its mid-tone; for a weighted sum of exactly 80 or 120 the rounding decides
  ((80, 80, 80) becomes black, (120, 120, 120) stays). The three colour channels hold the
  value as the nearest integer (which an 8-bit channel stores), and the alpha channel is
  untouched.
\<close>

theorem image_normalizer_output:
  "fst (canvasSize width height) \<le> 1500
   \<and> (width \<le> 1500 \<longrightarrow> canvasSize width height = (width, height))
   \<and> (1500 < width \<longrightarrow> canvasSize width height
         = (1500, mathRound (binary64 (binary64 (of_int height * 1500) / of_int width))))
   \<and> (1500 < width \<and> 0 \<le> height \<and> height < 2 ^ 32 \<longrightarrow>
         \<bar>of_int (snd (canvasSize width height)) - (of_int height * 1500 / of_int width :: rat)\<bar>
         \<le> 1 / 2 + 1 / 2 ^ 22)
   \<and> canvasSize 4000 3000 = (1500, 1125)
   \<and> (\<exists>v. contrastFilter (r # g # b # a # data) = v # v # v # a # contrastFilter data
          \<and> v = toUint8Clamp (contrast (luminosity r g b))
          \<and> (120 < luminosity r g b \<longrightarrow> contrast (luminosity r g b) = 255 \<and> v = 255)
          \<and> (luminosity r g b < 80 \<longrightarrow> contrast (luminosity r g b) = 0 \<and> v = 0)
          \<and> (80 \<le> luminosity r g b \<and> luminosity r g b \<le> 120 \<longrightarrow>
                contrast (luminosity r g b) = luminosity r g b
                \<and> 80 \<le> v \<and> v \<le> 120 \<and> \<bar>of_int v - luminosity r g b\<bar> \<le> 1 / 2)
          \<and> (0 \<le> r \<and> r \<le> 255 \<and> 0 \<le> g \<and> g \<le> 255 \<and> 0 \<le> b \<and> b \<le> 255 \<longrightarrow>
                \<bar>luminosity r g b - specLuminance r g b\<bar> \<le> 1 / 2 ^ 43
                \<and> (120 < specLuminance r g b \<longrightarrow> v = 255)
                \<and> (specLuminance r g b < 80 \<longrightarrow> v = 0)
                \<and> (80 < specLuminance r g b \<and> specLuminance r g b < 120 \<longrightarrow>
                      contrast (luminosity r g b) = luminosity r g b \<and> 80 \<le> v \<and> v \<le> 120
                      \<and> \<bar>of_int v - specLuminance r g b\<bar> \<le> 1 / 2 + 1 / 2 ^ 43)))
   \<and> contrastFilter [120, 120, 120, 255] = [120, 120, 120, 255]"
proof -
  have a: "canvasSize 4000 3000 = (1500, 1125)" by code_simp
  have a': "contrastFilter [120, 120, 120, 255] = [120, 120, 120, 255]" by code_simp
  have b: "toUint8Clamp 255 = 255" "toUint8Clamp 0 = 0" by (simp_all add: toUint8Clamp_def)
  let ?v = "toUint8Clamp (contrast (luminosity r g b))"
  have c: "contrastFilter (r # g # b # a # data) = ?v # ?v # ?v # a # contrastFilter data"
    by (simp add: Let_def)
  have d: "80 \<le> luminosity r g b \<and> luminosity r g b \<le> 120 \<longrightarrow>
            contrast (luminosity r g b) = luminosity r g b
            \<and> 80 \<le> ?v \<and> ?v \<le> 120 \<and> \<bar>of_int ?v - luminosity r g b\<bar> \<le> 1 / 2"
    using toUint8Clamp_midtone [of "luminosity r g b"] by (auto simp: contrast_def)
  have e: "120 < luminosity r g b \<longrightarrow> contrast (luminosity r g b) = 255 \<and> ?v = 255"
    using b by (simp add: contrast_def)
  have f: "luminosity r g b < 80 \<longrightarrow> contrast (luminosity r g b) = 0 \<and> ?v = 0"
    using b by (simp add: contrast_def)
  have g: "fst (canvasSize width height) \<le> 1500
   \<and> (width \<le> 1500 \<longrightarrow> canvasSize width height = (width, height))
   \<and> (1500 < width \<longrightarrow> canvasSize width height
         = (1500, mathRound (binary64 (binary64 (of_int height * 1500) / of_int width))))"
    by (simp add: canvasSize_def MAX_WIDTH_def)
  have h: "1500 < width \<and> 0 \<le> height \<and> height < 2 ^ 32 \<longrightarrow>
         \<bar>of_int (snd (canvasSize width height)) - (of_int height * 1500 / of_int width :: rat)\<bar>
         \<le> 1 / 2 + 1 / 2 ^ 22"
    using canvasSize_height by blast
  have i: "\<bar>luminosity r g b - specLuminance r g b\<bar> \<le> 1 / 2 ^ 43
           \<and> (120 < specLuminance r g b \<longrightarrow> ?v = 255)
           \<and> (specLuminance r g b < 80 \<longrightarrow> ?v = 0)
           \<and> (80 < specLuminance r g b \<and> specLuminance r g b < 120 \<longrightarrow>
                 contrast (luminosity r g b) = luminosity r g b \<and> 80 \<le> ?v \<and> ?v \<le> 120
                 \<and> \<bar>of_int ?v - specLuminance r g b\<bar> \<le> 1 / 2 + 1 / 2 ^ 43)"
    if range: "0 \<le> r \<and> r \<le> 255 \<and> 0 \<le> g \<and> g \<le> 255 \<and> 0 \<le> b \<and> b \<le> 255"
  proof -
    from range have near: "\<bar>luminosity r g b - specLuminance r g b\<bar> \<le> 1 / 2 ^ 43"
      by (intro luminosity_near) simp_all
    from range have th: "(120 < specLuminance r g b \<longrightarrow> 120 < luminosity r g b)
         \<and> (specLuminance r g b < 80 \<longrightarrow> luminosity r g b < 80)
         \<and> (80 < specLuminance r g b \<and> specLuminance r g b < 120 \<longrightarrow>
              80 < luminosity r g b \<and> luminosity r g b < 120)"
      by (intro luminosity_thresholds) simp_all
    have mid: "contrast (luminosity r g b) = luminosity r g b \<and> 80 \<le> ?v \<and> ?v \<le> 120
                 \<and> \<bar>of_int ?v - specLuminance r g b\<bar> \<le> 1 / 2 + 1 / 2 ^ 43"
      if "80 < specLuminance r g b \<and> specLuminance r g b < 120"
    proof -
      from th that have "80 \<le> luminosity r g b \<and> luminosity r g b \<le> 120" by simp
      with d have "contrast (luminosity r g b) = luminosity r g b" "80 \<le> ?v" "?v \<le> 120"
        and "\<bar>of_int ?v - luminosity r g b\<bar> \<le> 1 / 2" by blast+
      moreover from this(4) near
      have "\<bar>of_int ?v - specLuminance r g b\<bar> \<le> 1 / 2 + 1 / 2 ^ 43" by linarith
      ultimately show ?thesis by blast
    qed
    from near th e f mid show ?thesis by blast
  qed
  from a a' c d e f g h i show ?thesis by blast
qed

theorem image_normalizer_output_witness:
  "canvasSize 800 600 = (800, 600)
   \<and> canvasSize 3000 4000 = (1500, 2000)
   \<and> contrastFilter [200, 210, 190, 255, 100, 90, 110, 255, 20, 30, 10, 255]
       = [255, 255, 255, 255, 94, 94, 94, 255, 0, 0, 0, 255]
   \<and> 120 < luminosity 200 210 190 \<and> luminosity 20 30 10 < 80
   \<and> 80 \<le> luminosity 100 90 110 \<and> luminosity 100 90 110 \<le> 120
   \<and> 120 < specLuminance 200 210 190 \<and> specLuminance 20 30 10 < 80
   \<and> 80 < specLuminance 100 90 110 \<and> specLuminance 100 90 110 < 120
   \<and> toUint8Clamp (contrast (luminosity 200 210 190)) = 255
   \<and> toUint8Clamp (contrast (luminosity 20 30 10)) = 0
   \<and> \<bar>of_int (toUint8Clamp (contrast (luminosity 100 90 110))) - specLuminance 100 90 110\<bar>
       \<le> 1 / 2 + 1 / 2 ^ 43"
proof -
  have l1: "120 < luminosity 200 210 190" by code_simp
  have l2: "luminosity 20 30 10 < 80" by code_simp
  have l3: "80 \<le> luminosity 100 90 110 \<and> luminosity 100 90 110 \<le> 120" by code_simp
  have s1: "120 < specLuminance 200 210 190" by code_simp
  have s2: "specLuminance 20 30 10 < 80" by code_simp
  have s3: "80 < specLuminance 100 90 110 \<and> specLuminance 100 90 110 < 120" by code_simp
  have r1: "(0::int) \<le> 200 \<and> (200::int) \<le> 255 \<and> (0::int) \<le> 210 \<and> (210::int) \<le> 255
            \<and> (0::int) \<le> 190 \<and> (190::int) \<le> 255" by simp
  have r2: "(0::int) \<le> 20 \<and> (20::int) \<le> 255 \<and> (0::int) \<le> 30 \<and> (30::int) \<le> 255
            \<and> (0::int) \<le> 10 \<and> (10::int) \<le> 255" by simp
  have r3: "(0::int) \<le> 100 \<and> (100::int) \<le> 255 \<and> (0::int) \<le> 90 \<and> (90::int) \<le> 255
            \<and> (0::int) \<le> 110 \<and> (110::int) \<le> 255" by simp
  have w: "(800::int) \<le> 1500" "(1500::int) < 3000" "(0::int) \<le> 4000" "(4000::int) < 2 ^ 32"
    by simp_all
  have m: "mathRound (binary64 (binary64 (of_int 4000 * 1500) / of_int 3000)) = 2000" by code_simp
  have f: "contrastFilter [200, 210, 190, 255, 100, 90, 110, 255, 20, 30, 10, 255]
       = [255, 255, 255, 255, 94, 94, 94, 255, 0, 0, 0, 255]" by code_simp
  from image_normalizer_output [of 800 600] w have c1: "canvasSize 800 600 = (800, 600)" by blast
  from image_normalizer_output [of 3000 4000] w m have c2: "canvasSize 3000 4000 = (1500, 2000)"
    by simp
  from image_normalizer_output [of _ _ 200 210 190] r1 s1
  have p1: "toUint8Clamp (contrast (luminosity 200 210 190)) = 255" by blast
  from image_normalizer_output [of _ _ 20 30 10] r2 s2
  have p2: "toUint8Clamp (contrast (luminosity 20 30 10)) = 0" by blast
  from image_normalizer_output [of _ _ 100 90 110] r3 s3
  have p3: "\<bar>of_int (toUint8Clamp (contrast (luminosity 100 90 110))) - specLuminance 100 90 110\<bar>
       \<le> 1 / 2 + 1 / 2 ^ 43" by blast
  from c1 c2 f l1 l2 l3 s1 s2 s3 p1 p2 p3 show ?thesis by blast
qed

end
